theory Spec2Isabelle
  imports
    Main
    "HOL-Library.Word"
    "HOL-Library.Char_ord"
    "HOL-Library.List_Lexorder"
    "HOL-Library.Multiset"
begin

section \<open>The n-gram counter of \<open>ngram_counter.cpp\<close>\<close>

text \<open>
  A shallow embedding of \<open>nc::ngramCounter\<close>: the three character transforms, the
  tokenizer of \<open>process_file\<close>, the frequency tables (\<open>std::map<std::string, uint64_t>\<close>),
  and the worker lambda \<open>sweep\<close> of \<open>compute\<close>, whose accesses to shared memory (the atomic
  file index, the promise/future matrix, the mutex-protected console) are the atomic
  steps of an interleaving semantics.

  Conventions.
  \<^item> A file is its content, a \<open>string\<close> (a list of 8-bit \<open>char\<close>s); the vector
    \<open>files_to_sweep\<close> is the list of the contents in the order \<open>find_all_files\<close>
    returned the paths. A file that cannot be opened reads as the empty string.
  \<^item> Character codes are read with \<open>of_char\<close> as naturals below 256. The comparisons of
    the three transforms give the same result whether \<open>char\<close> is signed or not, as a
    byte of 128 or more is outside every range either way.
  \<^item> \<open>uint64_t\<close> counts and the atomic file index are \<open>64 word\<close>: \<open>+\<close> wraps.
  \<^item> \<open>num_threads\<close> and \<open>ngram\<close> (\<open>uint32_t\<close>) are naturals, and so are the \<open>int\<close> loop
    counters that the code compares with them: a counter never passes the value it is
    compared with, so it does not overflow while that value is at most \<open>INT_MAX\<close>.
  \<^item> \<open>std::hash<std::string>\<close> is library code: it is the parameter \<open>str_hash\<close>, the
    value of the \<open>size_t\<close> it returns.
  \<^item> The threads run interleaved: a schedule lists which worker takes the next step, and
    the properties of a run are proved for every schedule. The atomic increment, the
    promises and futures and the mutex are sequentially consistent, and everything else
    a worker touches is its own.
\<close>

subsection \<open>Character transforms (lines 138--151)\<close>

definition toLowerCase :: "char \<Rightarrow> char" where
  "toLowerCase c =
     (if (65::nat) \<le> of_char c \<and> of_char c \<le> (90::nat)
      then char_of (of_char c + (32::nat)) else c)"

definition removeNewlineAndTab :: "char \<Rightarrow> char" where
  "removeNewlineAndTab c =
     (if of_char c = (9::nat) \<or> of_char c = (10::nat) then char_of (32::nat) else c)"

definition removePunctuationAndNumbers :: "char \<Rightarrow> char" where
  "removePunctuationAndNumbers c =
     (if (33::nat) \<le> of_char c \<and> of_char c \<le> (64::nat)
         \<or> (91::nat) \<le> of_char c \<and> of_char c \<le> (96::nat)
         \<or> (123::nat) \<le> of_char c \<and> of_char c \<le> (126::nat)
      then char_of (124::nat) else c)"

text \<open>The three \<open>std::transform\<close> passes over \<open>contents\<close> (lines 160--162).\<close>

definition transform_contents :: "string \<Rightarrow> string" where
  "transform_contents contents =
     map removePunctuationAndNumbers (map removeNewlineAndTab (map toLowerCase contents))"

subsection \<open>The two regex token iterators (lines 164--178)\<close>

text \<open>
  \<open>std::sregex_token_iterator(first, last, rgx, -1)\<close> with \<open>rgx = [|]\<close> yields the text
  before each match; after the last match it yields the rest only when the rest is not
  empty; when there is no match at all it yields the whole range, empty or not.
  \<open>seen\<close> records that a match has been passed and \<open>cur\<close> is the text since the last
  match, reversed.
\<close>

fun split_tokens :: "bool \<Rightarrow> string \<Rightarrow> string \<Rightarrow> string list" where
  "split_tokens seen cur [] = (if seen \<and> cur = [] then [] else [rev cur])"
| "split_tokens seen cur (c # cs) =
     (if c = CHR ''|'' then rev cur # split_tokens True [] cs
      else split_tokens seen (c # cur) cs)"

text \<open>The class \<open>[a-z]\<close> of the second regex.\<close>

definition is_az :: "char \<Rightarrow> bool" where
  "is_az c \<longleftrightarrow> (97::nat) \<le> of_char c \<and> of_char c \<le> (122::nat)"

text \<open>
  \<open>std::sregex_token_iterator(first, last, rgx_word)\<close> with \<open>rgx_word = [a-z]+\<close> yields the
  successive matches: \<open>+\<close> is greedy and the search is leftmost, so each match is a run of
  letters that ends at the first other character or at the end. \<open>cur\<close> is the run being
  read, reversed.
\<close>

fun word_tokens :: "string \<Rightarrow> string \<Rightarrow> string list" where
  "word_tokens cur [] = (if cur = [] then [] else [rev cur])"
| "word_tokens cur (c # cs) =
     (if is_az c then word_tokens (c # cur) cs
      else if cur = [] then word_tokens [] cs
      else rev cur # word_tokens [] cs)"

subsection \<open>Frequency tables\<close>

text \<open>
  A \<open>std::map<std::string, uint64_t>\<close> is the list of its entries in the order the map
  iterates them: increasing keys, compared as \<open>std::string\<close> compares (bytes as unsigned,
  lexicographically). \<open>table_add k d m\<close> is \<open>m[k] += d\<close>: \<open>operator[]\<close> inserts the key with
  the count 0 when it is absent. \<open>m[k]++\<close> is \<open>table_add k 1 m\<close>.
\<close>

type_synonym entry = "string \<times> 64 word"
type_synonym table = "entry list"

fun table_add :: "string \<Rightarrow> 64 word \<Rightarrow> table \<Rightarrow> table" where
  "table_add k d [] = [(k, 0 + d)]"
| "table_add k d ((k', c) # m) =
     (if k = k' then (k', c + d) # m
      else if k < k' then (k, 0 + d) # (k', c) # m
      else (k', c) # table_add k d m)"

text \<open>The count stored for a key, read as 0 when the key has no entry.\<close>

definition count_of :: "table \<Rightarrow> string \<Rightarrow> 64 word" where
  "count_of m k = (case map_of m k of None \<Rightarrow> 0 | Some c \<Rightarrow> c)"

subsection \<open>\<open>process_file\<close> (lines 153--199)\<close>

text \<open>
  The inner \<open>while\<close> loop (lines 185--191): \<open>n\<close> counts the words in \<open>current_ngram\<close>,
  \<open>rest\<close> is what \<open>iter_seq_inner\<close> still has to yield. The result is \<open>n\<close> and
  \<open>current_ngram\<close> when the loop ends.
\<close>

fun extend_ngram :: "nat \<Rightarrow> nat \<Rightarrow> string \<Rightarrow> string list \<Rightarrow> nat \<times> string" where
  "extend_ngram ngram n current_ngram [] = (n, current_ngram)"
| "extend_ngram ngram n current_ngram (word # rest) =
     (if n < ngram then extend_ngram ngram (n + 1) (current_ngram @ '' '' @ word) rest
      else (n, current_ngram))"

text \<open>
  The loop over \<open>iter_seq\<close> (lines 178--196): one pass per word of the sequence, the words
  after it being what the copy \<open>iter_seq_inner\<close> yields.
\<close>

fun sequence_loop :: "nat \<Rightarrow> string list \<Rightarrow> table \<Rightarrow> table" where
  "sequence_loop ngram [] local_freq = local_freq"
| "sequence_loop ngram (word # rest) local_freq =
     (case extend_ngram ngram 1 word rest of
        (n, current_ngram) \<Rightarrow>
          sequence_loop ngram rest
            (if n = ngram then table_add current_ngram 1 local_freq else local_freq))"

text \<open>The loop over \<open>iter\<close> (lines 169--198): empty tokens are skipped.\<close>

fun token_loop :: "nat \<Rightarrow> string list \<Rightarrow> table \<Rightarrow> table" where
  "token_loop ngram [] local_freq = local_freq"
| "token_loop ngram (tok # toks) local_freq =
     token_loop ngram toks
       (if tok \<noteq> [] then sequence_loop ngram (word_tokens [] tok) local_freq
        else local_freq)"

definition process_file :: "nat \<Rightarrow> string \<Rightarrow> table \<Rightarrow> table" where
  "process_file ngram contents local_freq =
     token_loop ngram (split_tokens False [] (transform_contents contents)) local_freq"

subsection \<open>Top-five selection and the report (lines 101--123)\<close>

text \<open>The comparison lambda of lines 104--108.\<close>

definition comp :: "entry \<Rightarrow> entry \<Rightarrow> bool" where
  "comp l r \<longleftrightarrow> snd l > snd r"

text \<open>
  \<open>std::partial_sort_copy\<close> is library code. With \<open>n\<close> the smaller of the two lengths, it
  puts the first \<open>n\<close> elements of the source in the order of \<open>comp\<close> at the start of the
  destination and leaves the rest of the destination as it was. The standard does not fix
  the order of elements that \<open>comp\<close> does not separate; here an element goes behind the
  ones already placed that it does not precede, so such elements keep the source's order.
\<close>

fun insert_by_comp :: "entry \<Rightarrow> entry list \<Rightarrow> entry list" where
  "insert_by_comp x [] = [x]"
| "insert_by_comp x (y # ys) =
     (if comp x y then x # y # ys else y # insert_by_comp x ys)"

definition sort_by_comp :: "entry list \<Rightarrow> entry list" where
  "sort_by_comp src = fold insert_by_comp src []"

definition partial_sort_copy :: "entry list \<Rightarrow> entry list \<Rightarrow> entry list" where
  "partial_sort_copy src dst =
     (let n = min (length src) (length dst)
      in take n (sort_by_comp src) @ drop n dst)"

text \<open>\<open>std::vector<std::pair<std::string, uint64_t>> top_five(5)\<close>: five value-initialised slots.\<close>

definition empty_slots :: "entry list" where
  "empty_slots = replicate 5 ([], 0)"

definition select_top_five :: "table \<Rightarrow> entry list" where
  "select_top_five reduced_freq = partial_sort_copy reduced_freq empty_slots"

text \<open>Decimal output of an unsigned number, as \<open>operator<<\<close> prints it.\<close>

function decimal :: "nat \<Rightarrow> string" where
  "decimal n =
     (if n < 10 then [char_of (48 + n)]
      else decimal (n div 10) @ [char_of (48 + n mod 10)])"
  by pat_completeness auto
termination
  by (relation "measure id") auto

text \<open>One line of the report (lines 113--123).\<close>

definition placeholder :: string where
  "placeholder = ''       ...''"

definition render_slot :: "entry \<Rightarrow> string" where
  "render_slot slot =
     (case slot of (ngram, cnt) \<Rightarrow>
        if cnt = 0 then placeholder
        else ''       '' @ ngram @ '': '' @ decimal (unat cnt))"

definition report :: "nat \<Rightarrow> entry list \<Rightarrow> string list" where
  "report thread_id slots = (''Thread '' @ decimal thread_id @ '':'') # map render_slot slots"

subsection \<open>The worker \<open>sweep\<close> and its interleavings (lines 25--136)\<close>

text \<open>
  The run's parameters: the members of \<open>ngramCounter\<close>, the list \<open>files_to_sweep\<close> that
  \<open>compute\<close> builds first, and the hash function.
\<close>

record config =
  files_to_sweep :: "string list"
  num_threads :: nat
  ngram :: nat
  str_hash :: "string \<Rightarrow> nat"

text \<open>
  Lines 77--83: the \<open>num_threads\<close> vectors of \<open>assignment_matrix\<close>, filled in the
  iteration order of \<open>local_freq\<close>. The index \<open>assigned_thread\<close> is below \<open>num_threads\<close>, so
  \<open>at\<close> does not throw (a worker exists only when \<open>num_threads\<close> is positive).
\<close>

definition assign_pair :: "config \<Rightarrow> entry \<Rightarrow> entry list list \<Rightarrow> entry list list" where
  "assign_pair cfg pair am =
     (let assigned_thread = str_hash cfg (fst pair) mod num_threads cfg
      in am[assigned_thread := am ! assigned_thread @ [pair]])"

definition assign_all :: "config \<Rightarrow> table \<Rightarrow> entry list list" where
  "assign_all cfg local = fold (assign_pair cfg) local (replicate (num_threads cfg) [])"

text \<open>Lines 95--98: the updates of one future added to \<open>reduced_freq\<close>.\<close>

definition apply_updates :: "entry list \<Rightarrow> table \<Rightarrow> table" where
  "apply_updates updates reduced = fold (\<lambda>(g, cnt). table_add g cnt) updates reduced"

text \<open>
  Where a worker stands: in the \<open>while\<close> loop of line 70; about to set the promise of
  row \<open>i\<close> (line 87); about to get the future of column \<open>t\<close> (line 94); about to take the
  mutex and print (line 111); returned.
\<close>

datatype pc = Mapping | Writing nat | Reading nat | Printing | Finished

record worker =
  pc :: pc
  local_freq :: table
  assignment_matrix :: "entry list list"
  reduced_freq :: table
  top_five :: "entry list"

text \<open>
  The shared memory: the atomic \<open>global_index\<close>; the promises, \<open>shuffle_matrix s i j\<close>
  being the value of \<open>shuffle_matrix.at(i).at(j)\<close> once it is set (row \<open>i\<close> is read by
  worker \<open>i\<close>, column \<open>j\<close> is written by worker \<open>j\<close>); the workers' locals; the lines
  written to \<open>std::cout\<close>.
\<close>

record state =
  global_index :: "64 word"
  shuffle_matrix :: "nat \<Rightarrow> nat \<Rightarrow> entry list option"
  workers :: "nat \<Rightarrow> worker"
  console :: "string list"

definition init_worker :: worker where
  "init_worker =
     \<lparr>pc = Mapping, local_freq = [], assignment_matrix = [], reduced_freq = [],
      top_five = []\<rparr>"

definition init_state :: state where
  "init_state =
     \<lparr>global_index = 0, shuffle_matrix = (\<lambda>i j. None), workers = (\<lambda>w. init_worker),
      console = []\<rparr>"

text \<open>
  What a step can do instead of moving: the scheduled thread does not exist or has
  returned; \<open>get\<close> waits for a promise that is not set; \<open>set_value\<close> on a promise that is
  already set throws \<open>std::future_error\<close>.
\<close>

datatype failure = NoSuchThread | AlreadyFinished | Blocked | PromiseAlreadySatisfied

text \<open>
  What a step did: \<open>Claim w idx\<close>, the \<open>global_index++\<close> of worker \<open>w\<close> returned \<open>idx\<close>;
  \<open>Write w i\<close>, worker \<open>w\<close> set the promise \<open>shuffle_matrix.at(i).at(w)\<close>; \<open>Read w t\<close>, the
  \<open>get\<close> of worker \<open>w\<close> on \<open>shuffle_matrix_fut.at(w).at(t)\<close> returned; \<open>Print w\<close>, worker
  \<open>w\<close> wrote its report.
\<close>

datatype event = Claim nat "64 word" | Write nat nat | Read nat nat | Print nat

text \<open>
  One atomic step of worker \<open>thread_id\<close>: one access to shared memory together with the
  thread-local computation that follows it, up to the next access.
\<close>

definition set_worker :: "nat \<Rightarrow> worker \<Rightarrow> state \<Rightarrow> state" where
  "set_worker thread_id me s = s\<lparr>workers := (workers s)(thread_id := me)\<rparr>"

definition claim_step :: "config \<Rightarrow> nat \<Rightarrow> state \<Rightarrow> event \<times> state" where
  "claim_step cfg thread_id s =
     (let me = workers s thread_id;
          file_index = global_index s;
          s' = s\<lparr>global_index := global_index s + 1\<rparr>
      in if unat file_index < length (files_to_sweep cfg)
         then (Claim thread_id file_index,
               set_worker thread_id
                 (me\<lparr>local_freq :=
                    process_file (ngram cfg) (files_to_sweep cfg ! unat file_index)
                      (local_freq me)\<rparr>) s')
         else (Claim thread_id file_index,
               set_worker thread_id
                 (me\<lparr>assignment_matrix := assign_all cfg (local_freq me),
                     pc := Writing 0\<rparr>) s'))"

definition write_step :: "config \<Rightarrow> nat \<Rightarrow> nat \<Rightarrow> state \<Rightarrow> failure + event \<times> state" where
  "write_step cfg thread_id i s =
     (let me = workers s thread_id
      in case shuffle_matrix s i thread_id of
           Some v \<Rightarrow> Inl PromiseAlreadySatisfied
         | None \<Rightarrow>
             Inr (Write thread_id i,
                  set_worker thread_id
                    (me\<lparr>pc := (if i + 1 < num_threads cfg then Writing (i + 1) else Reading 0)\<rparr>)
                    (s\<lparr>shuffle_matrix :=
                         (shuffle_matrix s)
                           (i := (shuffle_matrix s i)(thread_id \<mapsto> assignment_matrix me ! i))\<rparr>)))"

definition read_step :: "config \<Rightarrow> nat \<Rightarrow> nat \<Rightarrow> state \<Rightarrow> failure + event \<times> state" where
  "read_step cfg thread_id t s =
     (let me = workers s thread_id
      in case shuffle_matrix s thread_id t of
           None \<Rightarrow> Inl Blocked
         | Some updates \<Rightarrow>
             (let reduced = apply_updates updates (reduced_freq me)
              in Inr (Read thread_id t,
                      set_worker thread_id
                        (if t + 1 < num_threads cfg
                         then me\<lparr>reduced_freq := reduced, pc := Reading (t + 1)\<rparr>
                         else me\<lparr>reduced_freq := reduced,
                                 top_five := select_top_five reduced,
                                 pc := Printing\<rparr>) s)))"

definition print_step :: "nat \<Rightarrow> state \<Rightarrow> event \<times> state" where
  "print_step thread_id s =
     (let me = workers s thread_id
      in (Print thread_id,
          set_worker thread_id (me\<lparr>pc := Finished\<rparr>)
            (s\<lparr>console := console s @ report thread_id (top_five me)\<rparr>)))"

definition step :: "config \<Rightarrow> nat \<Rightarrow> state \<Rightarrow> failure + event \<times> state" where
  "step cfg thread_id s =
     (if num_threads cfg \<le> thread_id then Inl NoSuchThread
      else case pc (workers s thread_id) of
             Mapping \<Rightarrow> Inr (claim_step cfg thread_id s)
           | Writing i \<Rightarrow> write_step cfg thread_id i s
           | Reading t \<Rightarrow> read_step cfg thread_id t s
           | Printing \<Rightarrow> Inr (print_step thread_id s)
           | Finished \<Rightarrow> Inl AlreadyFinished)"

text \<open>
  A schedule names the worker that takes each step. \<open>run\<close> follows it from a state and
  returns the events in the order they happened and the state reached; it fails where
  the scheduled worker cannot move.
\<close>

fun run :: "config \<Rightarrow> nat list \<Rightarrow> state \<Rightarrow> failure + event list \<times> state" where
  "run cfg [] s = Inr ([], s)"
| "run cfg (thread_id # sched) s =
     (case step cfg thread_id s of
        Inl e \<Rightarrow> Inl e
      | Inr (ev, s') \<Rightarrow>
          (case run cfg sched s' of
             Inl e \<Rightarrow> Inl e
           | Inr (evs, s'') \<Rightarrow> Inr (ev # evs, s'')))"

definition compute :: "config \<Rightarrow> nat list \<Rightarrow> failure + event list \<times> state" where
  "compute cfg sched = run cfg sched init_state"

text \<open>\<open>compute\<close> returns when every worker has been joined.\<close>

definition all_finished :: "config \<Rightarrow> state \<Rightarrow> bool" where
  "all_finished cfg s \<longleftrightarrow> (\<forall>w < num_threads cfg. pc (workers s w) = Finished)"

subsection \<open>The tokenizer as the specification words it\<close>

text \<open>
  Section 4.1 of the specification, steps (a) to (f), written independently of the code:
  the definitions below are compared with \<open>process_file\<close> further down.
\<close>

definition break_marker :: char where
  "break_marker = CHR ''|''"

definition is_uppercase :: "char \<Rightarrow> bool" where
  "is_uppercase c \<longleftrightarrow> c \<in> set ''ABCDEFGHIJKLMNOPQRSTUVWXYZ''"

definition is_lowercase :: "char \<Rightarrow> bool" where
  "is_lowercase c \<longleftrightarrow> c \<in> set ''abcdefghijklmnopqrstuvwxyz''"

definition is_digit :: "char \<Rightarrow> bool" where
  "is_digit c \<longleftrightarrow> c \<in> set ''0123456789''"

text \<open>
  The ASCII punctuation characters: codes 33 to 47, 58 to 64, 91 to 96 and 123 to 126.
\<close>

definition is_punctuation :: "char \<Rightarrow> bool" where
  "is_punctuation c \<longleftrightarrow>
     of_char c \<in> {33..47::nat} \<union> {58..64} \<union> {91..96} \<union> {123..126}"

text \<open>Steps (a), (b) and (c) on one character.\<close>

definition spec_normalize :: "char \<Rightarrow> char" where
  "spec_normalize c =
     (if is_uppercase c then char_of (of_char c + (32::nat))
      else if c = CHR 0x09 \<or> c = CHR 0x0A then CHR '' ''
      else if is_punctuation c \<or> is_digit c then break_marker
      else c)"

text \<open>The maximal non-empty runs of characters that satisfy \<open>P\<close>, in order.\<close>

function runs :: "(char \<Rightarrow> bool) \<Rightarrow> string \<Rightarrow> string list" where
  "runs P [] = []"
| "runs P (c # cs) =
     (if P c then (c # takeWhile P cs) # runs P (dropWhile P cs) else runs P cs)"
  by pat_completeness auto
termination
  by (relation "measure (\<lambda>(P, s). length s)") (auto simp: less_Suc_eq_le length_dropWhile_le)

text \<open>Step (d): the segments between break markers. Step (e): the words of a segment.\<close>

definition spec_segments :: "string \<Rightarrow> string list" where
  "spec_segments s = runs (\<lambda>c. c \<noteq> break_marker) s"

definition spec_words :: "string \<Rightarrow> string list" where
  "spec_words seg = runs is_lowercase seg"

fun join_words :: "string list \<Rightarrow> string" where
  "join_words [] = []"
| "join_words [w] = w"
| "join_words (w # ws) = w @ '' '' @ join_words ws"

text \<open>
  Step (f): for each word position \<open>i\<close> that has at least \<open>n - 1\<close> further words, the word
  at \<open>i\<close> and the next \<open>n - 1\<close> words joined by single spaces.
\<close>

definition spec_ngrams :: "nat \<Rightarrow> string list \<Rightarrow> string list" where
  "spec_ngrams n ws =
     map (\<lambda>i. join_words (take n (drop i ws)))
       (filter (\<lambda>i. i + (n - 1) < length ws) [0..<length ws])"

definition spec_tokenize :: "nat \<Rightarrow> string \<Rightarrow> string list" where
  "spec_tokenize n contents =
     concat (map (\<lambda>seg. spec_ngrams n (spec_words seg))
               (spec_segments (map spec_normalize contents)))"

text \<open>
  The naive single-threaded reference of Section 8: it tokenizes the files one after the
  other and counts every n-gram in one table of \<open>uint64_t\<close> counters.
\<close>

definition reference_table :: "nat \<Rightarrow> string list \<Rightarrow> string \<Rightarrow> 64 word" where
  "reference_table n files =
     fold (\<lambda>g tab. tab(g := tab g + 1)) (concat (map (spec_tokenize n) files)) (\<lambda>k. 0)"

subsection \<open>Auxiliary notions for the statements\<close>

text \<open>
  The entries of a \<open>std::map\<close> are in strictly increasing key order; every table the
  program builds keeps this.
\<close>

definition table_inv :: "table \<Rightarrow> bool" where
  "table_inv m \<longleftrightarrow> sorted_wrt (<) (map fst m)"

text \<open>
  The n-grams \<open>process_file\<close> counts for one file, in the order it counts them. With
  \<open>ngram = 0\<close> the test \<open>n == ngram\<close> of line 192 never holds, as \<open>n\<close> starts at 1.
\<close>

definition emitted :: "nat \<Rightarrow> string \<Rightarrow> string list" where
  "emitted n contents = (if n = 0 then [] else spec_tokenize n contents)"

text \<open>
  The bytes that none of the three transforms maps: the codes below 33 other than tab
  and newline, and the codes above 126.
\<close>

definition unmapped_byte :: "char \<Rightarrow> bool" where
  "unmapped_byte c \<longleftrightarrow>
     (of_char c < (33::nat) \<and> of_char c \<noteq> (9::nat) \<and> of_char c \<noteq> (10::nat))
     \<or> (126::nat) < of_char c"

text \<open>
  An ASCII letter of either case.
\<close>

definition is_letter :: "char \<Rightarrow> bool" where
  "is_letter c \<longleftrightarrow> is_az c \<or> (65::nat) \<le> of_char c \<and> of_char c \<le> (90::nat)"

text \<open>
  The states a run can reach, with the events that led there: the initial state, and
  what a step of any worker makes of a reachable state.
\<close>

inductive reachable :: "config \<Rightarrow> event list \<Rightarrow> state \<Rightarrow> bool" for cfg where
  reachable_init: "reachable cfg [] init_state"
| reachable_step:
    "reachable cfg tr s \<Longrightarrow> step cfg w s = Inr (ev, s') \<Longrightarrow> reachable cfg (tr @ [ev]) s'"

text \<open>
  \<open>written q i\<close>: a worker that stands at \<open>q\<close> has set its promise of row \<open>i\<close>.
  \<open>progress n q\<close>: the number of futures it has read, of \<open>n\<close>.
\<close>

fun written :: "pc \<Rightarrow> nat \<Rightarrow> bool" where
  "written Mapping i = False"
| "written (Writing j) i = (i < j)"
| "written (Reading t) i = True"
| "written Printing i = True"
| "written Finished i = True"

fun progress :: "nat \<Rightarrow> pc \<Rightarrow> nat" where
  "progress n Mapping = 0"
| "progress n (Writing j) = 0"
| "progress n (Reading t) = t"
| "progress n Printing = n"
| "progress n Finished = n"

text \<open>
  The entries of a table that line 81 assigns to worker \<open>w\<close>, and the table that
  worker \<open>w\<close> has after it has added those of the workers before \<open>t\<close>.
\<close>

definition owned :: "config \<Rightarrow> nat \<Rightarrow> table \<Rightarrow> entry list" where
  "owned cfg w m = filter (\<lambda>e. str_hash cfg (fst e) mod num_threads cfg = w) m"

definition merged :: "config \<Rightarrow> state \<Rightarrow> nat \<Rightarrow> nat \<Rightarrow> table" where
  "merged cfg s w t =
     fold (\<lambda>p. apply_updates (owned cfg w (local_freq (workers s p)))) [0..<t] []"

text \<open>
  The claims of a trace, each with its worker and the index it was returned; the indices
  alone; and the indices of the files that worker \<open>w\<close> was given.
\<close>

fun claim_of :: "event \<Rightarrow> (nat \<times> 64 word) list" where
  "claim_of (Claim w idx) = [(w, idx)]"
| "claim_of ev = []"

definition claims :: "event list \<Rightarrow> (nat \<times> 64 word) list" where
  "claims tr = concat (map claim_of tr)"

definition claim_values :: "event list \<Rightarrow> 64 word list" where
  "claim_values tr = map snd (claims tr)"

definition claimed_by :: "config \<Rightarrow> event list \<Rightarrow> nat \<Rightarrow> nat list" where
  "claimed_by cfg tr w =
     map (\<lambda>c. unat (snd c))
       (filter (\<lambda>c. fst c = w \<and> unat (snd c) < length (files_to_sweep cfg)) (claims tr))"

text \<open>
  The workers that have left the loop of line 70.
\<close>

definition leavers :: "config \<Rightarrow> state \<Rightarrow> nat set" where
  "leavers cfg s = {w. w < num_threads cfg \<and> pc (workers s w) \<noteq> Mapping}"

text \<open>
  How often file \<open>i\<close> holds the n-gram \<open>k\<close>; the table one worker would build from all
  files; the number of n-grams in all files.
\<close>

definition occurrences :: "config \<Rightarrow> string \<Rightarrow> nat \<Rightarrow> nat" where
  "occurrences cfg k i = count_list (emitted (ngram cfg) (files_to_sweep cfg ! i)) k"

definition global_table :: "config \<Rightarrow> table" where
  "global_table cfg = fold (process_file (ngram cfg)) (files_to_sweep cfg) []"

definition total_ngrams :: "config \<Rightarrow> nat" where
  "total_ngrams cfg = length (concat (map (emitted (ngram cfg)) (files_to_sweep cfg)))"

text \<open>
  An example: the two files of the end-to-end scenario of Section 8, two workers, a hash
  that is the code of the first character, and two schedules. In \<open>example_schedule\<close>
  the workers alternate through each phase; in \<open>early_schedule\<close> worker 0 runs to its
  return while worker 1 has set only its first promise.
\<close>

definition example_hash :: "string \<Rightarrow> nat" where
  "example_hash k = (case k of [] \<Rightarrow> 0 | c # cs \<Rightarrow> of_char c)"

definition example_config :: config where
  "example_config =
     \<lparr>files_to_sweep = [''a b a b'', ''a b''], num_threads = 2, ngram = 2,
      str_hash = example_hash\<rparr>"

definition example_schedule :: "nat list" where
  "example_schedule = [0, 1, 0, 1, 0, 0, 1, 1, 0, 0, 1, 1, 0, 1]"

text \<open>
  The events and the state of a run that did not fail (they are used only on runs that
  are shown not to fail).
\<close>

definition trace_of :: "failure + event list \<times> state \<Rightarrow> event list" where
  "trace_of r = fst (projr r)"

definition state_of :: "failure + event list \<times> state \<Rightarrow> state" where
  "state_of r = snd (projr r)"

definition early_schedule :: "nat list" where
  "early_schedule = [0, 0, 0, 1, 0, 0, 1, 0, 0, 0]"

text \<open>
  The steps a worker at \<open>q\<close> still has to take, of \<open>n\<close> workers, and the steps the whole
  run still has to take: the files not yet claimed and what each worker has left.
\<close>

fun remaining :: "nat \<Rightarrow> pc \<Rightarrow> nat" where
  "remaining n Mapping = 2 * n + 2"
| "remaining n (Writing j) = (n - j) + n + 1"
| "remaining n (Reading t) = (n - t) + 1"
| "remaining n Printing = 1"
| "remaining n Finished = 0"

definition steps_left :: "config \<Rightarrow> state \<Rightarrow> nat" where
  "steps_left cfg s =
     (length (files_to_sweep cfg) - unat (global_index s))
     + (\<Sum>w<num_threads cfg. remaining (num_threads cfg) (pc (workers s w)))"

section \<open>Properties\<close>

subsection \<open>The tokenizer\<close>

lemma is_az_iff: "is_az c \<longleftrightarrow> is_lowercase c"
  by (cases c) (auto simp: is_az_def is_lowercase_def)

lemma is_az_eq: "is_az = is_lowercase"
  by (rule ext) (rule is_az_iff)

lemma is_uppercase_iff:
  "is_uppercase c \<longleftrightarrow> (65::nat) \<le> of_char c \<and> of_char c \<le> (90::nat)"
  by (cases c) (auto simp: is_uppercase_def)

lemma is_digit_iff: "is_digit c \<longleftrightarrow> (48::nat) \<le> of_char c \<and> of_char c \<le> (57::nat)"
  by (cases c) (auto simp: is_digit_def)

lemma char_eq_code_iff: "c = char_of (n::nat) \<longleftrightarrow> of_char c = n mod 256"
proof
  assume "c = char_of n"
  then show "of_char c = n mod 256" by simp
next
  assume "of_char c = n mod 256"
  then have "char_of (of_char c :: nat) = (char_of (n mod 256) :: char)" by simp
  then show "c = char_of n" by simp
qed

lemma char_literals:
  "CHR 0x09 = char_of (9::nat)" "CHR 0x0A = char_of (10::nat)"
  "CHR '' '' = char_of (32::nat)" "CHR ''|'' = char_of (124::nat)"
  by code_simp+

text \<open>The three passes of the code are steps (a), (b) and (c) of the specification.\<close>

lemma spec_normalize_eq:
  "spec_normalize c = removePunctuationAndNumbers (removeNewlineAndTab (toLowerCase c))"
proof -
  consider (upper) "(65::nat) \<le> of_char c" "of_char c \<le> (90::nat)"
    | (blank) "of_char c = (9::nat) \<or> of_char c = (10::nat)"
    | (other) "\<not> ((65::nat) \<le> of_char c \<and> of_char c \<le> (90::nat))"
        "of_char c \<noteq> (9::nat)" "of_char c \<noteq> (10::nat)"
    by blast
  then show ?thesis
  proof cases
    case upper
    then have "of_char (char_of (of_char c + (32::nat)) :: char) = of_char c + (32::nat)"
      by simp
    with upper show ?thesis
      by (simp add: spec_normalize_def removePunctuationAndNumbers_def removeNewlineAndTab_def
          toLowerCase_def is_uppercase_iff)
  next
    case blank
    then show ?thesis
      by (auto simp: spec_normalize_def removePunctuationAndNumbers_def removeNewlineAndTab_def
          toLowerCase_def is_uppercase_iff char_literals char_eq_code_iff)
  next
    case other
    then show ?thesis
      by (auto simp: spec_normalize_def removePunctuationAndNumbers_def removeNewlineAndTab_def
          toLowerCase_def is_uppercase_iff is_digit_iff is_punctuation_def break_marker_def
          char_literals char_eq_code_iff)
  qed
qed

lemma transform_contents_eq: "transform_contents s = map spec_normalize s"
  by (simp add: transform_contents_def spec_normalize_eq)

lemma runs_all:
  assumes "\<forall>x\<in>set xs. P x"
  shows "runs P xs = (if xs = [] then [] else [xs])"
proof (cases xs)
  case Nil
  then show ?thesis by simp
next
  case (Cons a list)
  with assms have "takeWhile P list = list" "dropWhile P list = []"
    by simp_all
  with Cons assms show ?thesis by (simp del: dropWhile_eq_Nil_conv)
qed

lemma runs_append_sep:
  "\<forall>x\<in>set xs. P x \<Longrightarrow> \<not> P c \<Longrightarrow>
   runs P (xs @ c # cs) = (if xs = [] then [] else [xs]) @ runs P cs"
  by (cases xs) (auto simp: takeWhile_append dropWhile_append)

lemma runs_skip: "\<forall>x\<in>set xs. \<not> P x \<Longrightarrow> runs P (xs @ ys) = runs P ys"
  by (induction xs) auto

lemma runs_members: "w \<in> set (runs P s) \<Longrightarrow> x \<in> set w \<Longrightarrow> P x"
proof (induction P s rule: runs.induct)
  case (1 P)
  then show ?case by simp
next
  case (2 P c cs)
  then show ?case
    by (auto split: if_splits dest: set_takeWhileD)
qed

lemma split_tokens_runs:
  "\<forall>x\<in>set cur. x \<noteq> CHR ''|'' \<Longrightarrow>
   filter (\<lambda>t. t \<noteq> []) (split_tokens seen cur s) = runs (\<lambda>c. c \<noteq> CHR ''|'') (rev cur @ s)"
proof (induction s arbitrary: seen cur)
  case Nil
  then show ?case by (simp add: runs_all)
next
  case (Cons c cs)
  show ?case
  proof (cases "c = CHR ''|''")
    case True
    have "runs (\<lambda>c. c \<noteq> CHR ''|'') (rev cur @ c # cs)
            = (if rev cur = [] then [] else [rev cur]) @ runs (\<lambda>c. c \<noteq> CHR ''|'') cs"
      using Cons.prems True by (intro runs_append_sep) auto
    moreover have "filter (\<lambda>t. t \<noteq> []) (split_tokens True [] cs) = runs (\<lambda>c. c \<noteq> CHR ''|'') cs"
      using Cons.IH [of "[]" True] by simp
    ultimately show ?thesis using True by simp
  next
    case False
    then show ?thesis using Cons.IH [of "c # cur" seen] Cons.prems by simp
  qed
qed

lemma word_tokens_runs:
  "\<forall>x\<in>set cur. is_az x \<Longrightarrow> word_tokens cur s = runs is_az (rev cur @ s)"
proof (induction s arbitrary: cur)
  case Nil
  then show ?case by (simp add: runs_all)
next
  case (Cons c cs)
  show ?case
  proof (cases "is_az c")
    case True
    then show ?thesis using Cons.IH [of "c # cur"] Cons.prems by simp
  next
    case False
    have "runs is_az (rev cur @ c # cs) = (if rev cur = [] then [] else [rev cur]) @ runs is_az cs"
      using Cons.prems False by (intro runs_append_sep) auto
    then show ?thesis using False Cons.IH [of "[]"] by simp
  qed
qed

lemma token_loop_fold:
  "token_loop ng toks tab =
     fold (\<lambda>tok. sequence_loop ng (word_tokens [] tok)) (filter (\<lambda>t. t \<noteq> []) toks) tab"
  by (induction toks arbitrary: tab) auto

lemma join_words_Cons: "join_words (w # ws) = w @ concat (map (\<lambda>v. '' '' @ v) ws)"
  by (induction ws arbitrary: w) auto

lemma extend_ngram_eq:
  "n \<le> ng \<Longrightarrow>
   extend_ngram ng n cur rest =
     (min ng (n + length rest), cur @ concat (map (\<lambda>v. '' '' @ v) (take (ng - n) rest)))"
proof (induction rest arbitrary: n cur)
  case Nil
  then show ?case by simp
next
  case (Cons w rest)
  show ?case
  proof (cases "n < ng")
    case True
    then have "ng - n = Suc (ng - (n + 1))"
      by arith
    then have "take (ng - n) (w # rest) = w # take (ng - (n + 1)) rest"
      by simp
    then show ?thesis using True Cons.IH [of "n + 1" "cur @ '' '' @ w"] by simp
  next
    case False
    then show ?thesis using Cons.prems by simp
  qed
qed

lemma extend_ngram_first:
  assumes "1 \<le> ng"
  shows "extend_ngram ng 1 w rest = (min ng (Suc (length rest)), join_words (take ng (w # rest)))"
proof -
  have "take ng (w # rest) = w # take (ng - 1) rest"
    using assms by (cases ng) auto
  then show ?thesis
    using extend_ngram_eq [OF assms, of w rest] by (simp add: join_words_Cons)
qed

lemma extend_ngram_zero: "extend_ngram 0 n cur rest = (n, cur)"
  by (cases rest) auto

lemma spec_ngrams_Nil: "spec_ngrams n [] = []"
  by (simp add: spec_ngrams_def)

lemma spec_ngrams_Cons:
  "spec_ngrams n (w # rest) =
     (if n - 1 < Suc (length rest) then [join_words (take n (w # rest))] else [])
     @ spec_ngrams n rest"
proof -
  have "[0..<Suc (length rest)] = 0 # [Suc 0..<Suc (length rest)]"
    by (rule upt_conv_Cons) simp
  also have "[Suc 0..<Suc (length rest)] = map Suc [0..<length rest]"
    by (rule map_Suc_upt [symmetric])
  finally have upt: "[0..<length (w # rest)] = 0 # map Suc [0..<length rest]"
    by simp
  have shift: "filter (\<lambda>i. i + (n - 1) < length (w # rest)) (map Suc [0..<length rest])
                 = map Suc (filter (\<lambda>i. i + (n - 1) < length rest) [0..<length rest])"
    by (simp add: filter_map o_def)
  have "spec_ngrams n (w # rest) =
          map (\<lambda>i. join_words (take n (drop i (w # rest))))
            (filter (\<lambda>i. i + (n - 1) < length (w # rest)) (0 # map Suc [0..<length rest]))"
    unfolding spec_ngrams_def upt ..
  also have "\<dots> = (if n - 1 < Suc (length rest) then [join_words (take n (w # rest))] else [])
                   @ map (\<lambda>i. join_words (take n (drop i (w # rest))))
                       (map Suc (filter (\<lambda>i. i + (n - 1) < length rest) [0..<length rest]))"
    unfolding filter.simps shift by simp
  also have "map (\<lambda>i. join_words (take n (drop i (w # rest))))
                (map Suc (filter (\<lambda>i. i + (n - 1) < length rest) [0..<length rest]))
              = spec_ngrams n rest"
    unfolding spec_ngrams_def by (simp add: o_def)
  finally show ?thesis .
qed

lemma sequence_loop_spec:
  "1 \<le> ng \<Longrightarrow> sequence_loop ng ws tab = fold (\<lambda>g. table_add g 1) (spec_ngrams ng ws) tab"
proof (induction ws arbitrary: tab)
  case Nil
  then show ?case by (simp add: spec_ngrams_Nil)
next
  case (Cons w rest)
  have eq: "(min ng (Suc (length rest)) = ng) = (ng - 1 < Suc (length rest))"
    using Cons.prems by auto
  have "sequence_loop ng (w # rest) tab =
          sequence_loop ng rest
            (if ng - 1 < Suc (length rest)
             then table_add (join_words (take ng (w # rest))) 1 tab else tab)"
    by (simp only: sequence_loop.simps extend_ngram_first [OF Cons.prems] prod.case eq)
  then show ?case
    using Cons.IH [OF Cons.prems] by (simp add: spec_ngrams_Cons del: join_words.simps)
qed

lemma sequence_loop_zero: "sequence_loop 0 ws tab = tab"
  by (induction ws arbitrary: tab) (auto simp: extend_ngram_zero)

lemma token_loop_zero: "token_loop 0 toks tab = tab"
  by (induction toks arbitrary: tab) (auto simp: sequence_loop_zero)

lemma fold_concat_lists: "fold f (concat xss) = fold (fold f) xss"
  by (induction xss) auto

lemma process_file_spec:
  assumes "1 \<le> ng"
  shows "process_file ng contents tab = fold (\<lambda>g. table_add g 1) (spec_tokenize ng contents) tab"
proof -
  have segs: "filter (\<lambda>t. t \<noteq> []) (split_tokens False [] (transform_contents contents))
                = spec_segments (map spec_normalize contents)"
    using split_tokens_runs [of "[]" False "transform_contents contents"]
    by (simp add: spec_segments_def break_marker_def transform_contents_eq)
  have words: "word_tokens [] seg = spec_words seg" for seg
    using word_tokens_runs [of "[]" seg] by (simp add: spec_words_def is_az_eq)
  show ?thesis
    unfolding process_file_def token_loop_fold segs spec_tokenize_def
    by (simp add: fold_concat_lists fold_map o_def words sequence_loop_spec [OF assms, abs_def])
qed

lemma process_file_emitted:
  "process_file ng contents tab = fold (\<lambda>g. table_add g 1) (emitted ng contents) tab"
proof (cases "ng = 0")
  case True
  then show ?thesis by (simp add: emitted_def process_file_def token_loop_zero)
next
  case False
  then show ?thesis by (simp add: emitted_def process_file_spec)
qed

lemma set_join_words: "set (join_words ws) \<subseteq> \<Union> (set ` set ws) \<union> {CHR '' ''}"
  by (induction ws rule: join_words.induct) auto

lemma spec_ngrams_chars:
  assumes "g \<in> set (spec_ngrams n ws)" "x \<in> set g"
  shows "x = CHR '' '' \<or> (\<exists>w \<in> set ws. x \<in> set w)"
proof -
  from assms(1) obtain i where "g = join_words (take n (drop i ws))"
    by (auto simp: spec_ngrams_def)
  with assms(2) set_join_words [of "take n (drop i ws)"]
  show ?thesis
    by (auto dest!: in_set_takeD in_set_dropD)
qed

lemma spec_tokenize_chars:
  assumes "g \<in> set (spec_tokenize n contents)" "x \<in> set g"
  shows "x = CHR '' '' \<or> is_lowercase x"
proof -
  from assms(1) obtain seg where "g \<in> set (spec_ngrams n (spec_words seg))"
    by (auto simp: spec_tokenize_def)
  from spec_ngrams_chars [OF this assms(2)] show ?thesis
    by (auto simp: spec_words_def dest: runs_members)
qed

text \<open>
  C5. For every file content and every \<open>n \<ge> 1\<close>, \<open>process_file\<close> counts exactly the
  n-grams of the specification's tokenizer, in its order: per segment and per word
  position with at least \<open>n - 1\<close> further words in the segment, the word and the next
  \<open>n - 1\<close> words joined by single spaces, the words being the maximal runs of lowercase
  letters. A position with fewer following words adds nothing (it is filtered out in
  \<open>spec_ngrams\<close>), an empty file yields nothing, no segment contains the break marker and
  no n-gram does, so none spans a break.
\<close>

theorem process_file_counts_spec_tokens:
  assumes "1 \<le> n"
  shows "process_file n contents tab = fold (\<lambda>g. table_add g 1) (spec_tokenize n contents) tab
    \<and> spec_tokenize n [] = [] \<and> process_file n [] tab = tab
    \<and> (\<forall>seg \<in> set (spec_segments (map spec_normalize contents)). break_marker \<notin> set seg)
    \<and> (\<forall>g \<in> set (spec_tokenize n contents). break_marker \<notin> set g)"
proof -
  have "\<forall>seg \<in> set (spec_segments (map spec_normalize contents)). break_marker \<notin> set seg"
    by (auto simp: spec_segments_def dest: runs_members)
  moreover have "\<forall>g \<in> set (spec_tokenize n contents). break_marker \<notin> set g"
  proof (intro ballI notI)
    fix g assume "g \<in> set (spec_tokenize n contents)" "break_marker \<in> set g"
    from spec_tokenize_chars [OF this] show False
      by (simp add: break_marker_def is_lowercase_def)
  qed
  moreover have "spec_tokenize n [] = []"
    by (simp add: spec_tokenize_def spec_segments_def)
  ultimately show ?thesis
    using process_file_spec [OF assms] by simp
qed

theorem process_file_counts_spec_tokens_witness:
  "process_file 2 ''a b c, d e'' [] = [(''a b'', 1), (''b c'', 1), (''d e'', 1)]
   \<and> spec_tokenize 2 ''a b c, d e'' = [''a b'', ''b c'', ''d e'']
   \<and> spec_segments (map spec_normalize ''a b c, d e'') = [''a b c'', '' d e'']"
proof -
  have tok: "spec_tokenize 2 ''a b c, d e'' = [''a b'', ''b c'', ''d e'']"
    by code_simp
  have segs: "spec_segments (map spec_normalize ''a b c, d e'') = [''a b c'', '' d e'']"
    by code_simp
  have "(1::nat) \<le> 2" by simp
  from process_file_counts_spec_tokens [OF this, of "''a b c, d e''" "[]"]
  have "process_file 2 ''a b c, d e'' []
          = fold (\<lambda>g. table_add g 1) (spec_tokenize 2 ''a b c, d e'') []"
    by blast
  then show ?thesis
    unfolding tok segs by simp
qed

text \<open>
  C3 as stated: the input \<open>Hello, World! Hello world.\<close> with \<open>n = 2\<close> would give
  \<open>hello world\<close> the count 2. The code gives it the count 1.
\<close>

theorem hello_world_count_is_not_two:
  "count_of (process_file 2 ''Hello, World! Hello world.'' []) ''hello world'' \<noteq> 2"
  by code_simp

text \<open>
  C3 amended. The comma and the exclamation mark become break markers, so the tokens
  are \<open>hello\<close>, \<open> world\<close> and \<open> hello world\<close>. The first two hold one word each and
  yield no 2-gram; the third yields \<open>hello world\<close> once. The table of the file is that
  one entry with the count 1, and no n-gram crosses a break.
\<close>

theorem hello_world_counted_once:
  "split_tokens False [] (transform_contents ''Hello, World! Hello world.'')
     = [''hello'', '' world'', '' hello world'']
   \<and> sequence_loop 2 (word_tokens [] ''hello'') [] = []
   \<and> sequence_loop 2 (word_tokens [] '' world'') [] = []
   \<and> sequence_loop 2 (word_tokens [] '' hello world'') [] = [(''hello world'', 1)]
   \<and> process_file 2 ''Hello, World! Hello world.'' [] = [(''hello world'', 1)]
   \<and> count_of (process_file 2 ''Hello, World! Hello world.'' []) ''hello world'' = 1"
  by code_simp

lemma unmapped_byte_fixed:
  assumes "unmapped_byte c"
  shows "toLowerCase c = c" "removeNewlineAndTab c = c" "removePunctuationAndNumbers c = c"
    "c \<noteq> CHR ''|''" "\<not> is_az c" "spec_normalize c = c"
proof -
  show low: "toLowerCase c = c" and nl: "removeNewlineAndTab c = c"
    and pn: "removePunctuationAndNumbers c = c"
    using assms
    by (auto simp: unmapped_byte_def toLowerCase_def removeNewlineAndTab_def
        removePunctuationAndNumbers_def)
  show "c \<noteq> CHR ''|''"
    using assms by (auto simp: unmapped_byte_def char_literals char_eq_code_iff)
  show "\<not> is_az c"
    using assms by (auto simp: unmapped_byte_def is_az_def)
  show "spec_normalize c = c"
    by (simp add: spec_normalize_eq low nl pn)
qed

lemma is_letter_normalize:
  assumes "is_letter c"
  shows "spec_normalize c = toLowerCase c" "is_az (toLowerCase c)"
proof -
  consider (lower) "is_az c" | (upper) "(65::nat) \<le> of_char c" "of_char c \<le> (90::nat)"
    using assms by (auto simp: is_letter_def)
  then have "removePunctuationAndNumbers (removeNewlineAndTab (toLowerCase c)) = toLowerCase c
      \<and> is_az (toLowerCase c)"
  proof cases
    case lower
    then show ?thesis
      by (auto simp: is_az_def toLowerCase_def removeNewlineAndTab_def
          removePunctuationAndNumbers_def)
  next
    case upper
    then have "of_char (char_of (of_char c + (32::nat)) :: char) = of_char c + (32::nat)"
      by simp
    with upper show ?thesis
      by (simp add: is_az_def toLowerCase_def removeNewlineAndTab_def
          removePunctuationAndNumbers_def)
  qed
  then show "spec_normalize c = toLowerCase c" "is_az (toLowerCase c)"
    by (simp_all add: spec_normalize_eq)
qed

text \<open>
  C10. A byte that is below 33 and neither tab nor newline (carriage return among them),
  or above 126, is left as it is by the three transforms; it is not the break marker and
  not a letter. So it ends a word and not a segment: two runs of letters with only such
  bytes between them are one token of the split, two words of that token, and with
  \<open>n = 2\<close> they are counted together as one n-gram.
\<close>

theorem unmapped_bytes_separate_words:
  assumes "seps \<noteq> []" and "\<forall>c \<in> set seps. unmapped_byte c"
    and "w1 \<noteq> []" and "w2 \<noteq> []" and "\<forall>c \<in> set (w1 @ w2). is_letter c"
  shows "(\<forall>c \<in> set seps. toLowerCase c = c \<and> removeNewlineAndTab c = c
            \<and> removePunctuationAndNumbers c = c \<and> c \<noteq> CHR ''|'' \<and> \<not> is_az c)
    \<and> transform_contents (w1 @ seps @ w2) = map toLowerCase w1 @ seps @ map toLowerCase w2
    \<and> split_tokens False [] (transform_contents (w1 @ seps @ w2))
        = [map toLowerCase w1 @ seps @ map toLowerCase w2]
    \<and> word_tokens [] (map toLowerCase w1 @ seps @ map toLowerCase w2)
        = [map toLowerCase w1, map toLowerCase w2]
    \<and> process_file 2 (w1 @ seps @ w2) tab
        = table_add (map toLowerCase w1 @ '' '' @ map toLowerCase w2) 1 tab"
proof -
  let ?l1 = "map toLowerCase w1" and ?l2 = "map toLowerCase w2"
  let ?t = "?l1 @ seps @ ?l2"
  have fixed: "\<forall>c \<in> set seps. toLowerCase c = c \<and> removeNewlineAndTab c = c
            \<and> removePunctuationAndNumbers c = c \<and> c \<noteq> CHR ''|'' \<and> \<not> is_az c"
    using assms(2) unmapped_byte_fixed by blast
  have norm_seps: "map spec_normalize seps = seps"
    using assms(2) by (simp add: map_idI unmapped_byte_fixed(6))
  have norm1: "map spec_normalize w1 = ?l1" and norm2: "map spec_normalize w2 = ?l2"
    using assms(5) by (simp_all add: is_letter_normalize(1))
  have az1: "\<forall>c \<in> set ?l1. is_az c" and az2: "\<forall>c \<in> set ?l2. is_az c"
    using assms(5) by (simp_all add: is_letter_normalize(2))
  have tc: "transform_contents (w1 @ seps @ w2) = ?t"
    by (simp add: transform_contents_eq norm_seps norm1 norm2)
  have nobar: "\<forall>c \<in> set ?t. c \<noteq> CHR ''|''"
    using az1 az2 fixed by (auto simp: is_az_def char_literals char_eq_code_iff)
  have no_bar_split: "\<forall>c \<in> set cur \<union> set s. c \<noteq> CHR ''|'' \<Longrightarrow>
      split_tokens False cur s = [rev cur @ s]" for cur s
    by (induction s arbitrary: cur) auto
  have split: "split_tokens False [] ?t = [?t]"
    using no_bar_split [of "[]" ?t] nobar by simp
  obtain s ss where seps: "seps = s # ss" using assms(1) by (cases seps) auto
  have "runs is_az (?l1 @ s # (ss @ ?l2)) = (if ?l1 = [] then [] else [?l1]) @ runs is_az (ss @ ?l2)"
    using az1 fixed seps by (intro runs_append_sep) auto
  moreover have "runs is_az (ss @ ?l2) = runs is_az ?l2"
    using fixed seps by (intro runs_skip) auto
  moreover have "runs is_az ?l2 = [?l2]"
    using az2 assms(4) by (simp add: runs_all)
  ultimately have words: "word_tokens [] ?t = [?l1, ?l2]"
    using assms(3) word_tokens_runs [of "[]" ?t] by (simp add: seps)
  have "?t \<noteq> []" using assms(1) by simp
  then have "process_file 2 (w1 @ seps @ w2) tab = table_add (?l1 @ '' '' @ ?l2) 1 tab"
    unfolding process_file_def tc split
    by (simp add: words numeral_2_eq_2)
  with fixed tc split words show ?thesis
    by (simp only: simp_thms)
qed

theorem unmapped_bytes_separate_words_witness:
  "process_file 2 (''Ab'' @ [CHR 0x0D, CHR 0xFF] @ ''cd'') [] = [(''ab cd'', 1)]
   \<and> unmapped_byte (CHR 0x0D) \<and> unmapped_byte (CHR 0xFF)
   \<and> split_tokens False [] (transform_contents (''Ab'' @ [CHR 0x0D, CHR 0xFF] @ ''cd''))
       = [''ab'' @ [CHR 0x0D, CHR 0xFF] @ ''cd'']"
proof -
  have h1: "[CHR 0x0D, CHR 0xFF] \<noteq> []" by simp
  have h2: "\<forall>c \<in> set [CHR 0x0D, CHR 0xFF]. unmapped_byte c"
    by (simp add: unmapped_byte_def)
  have h3: "''Ab'' \<noteq> []" and h4: "''cd'' \<noteq> []" by simp_all
  have h5: "\<forall>c \<in> set (''Ab'' @ ''cd''). is_letter c"
    by (simp add: is_letter_def is_az_def)
  have low: "map toLowerCase ''Ab'' = ''ab''" "map toLowerCase ''cd'' = ''cd''"
    by code_simp+
  from unmapped_bytes_separate_words [OF h1 h2 h3 h4 h5, of "[]"] h2
  show ?thesis
    unfolding low by simp
qed

subsection \<open>Reachable states\<close>

lemma run_reachable:
  "reachable cfg tr0 s0 \<Longrightarrow> run cfg sched s0 = Inr (tr, s) \<Longrightarrow> reachable cfg (tr0 @ tr) s"
proof (induction sched arbitrary: tr0 s0 tr)
  case Nil
  then show ?case by simp
next
  case (Cons w sched)
  from Cons.prems(2) obtain ev s1 evs where
    st: "step cfg w s0 = Inr (ev, s1)" and rest: "run cfg sched s1 = Inr (evs, s)"
    and tr: "tr = ev # evs"
    by (auto split: sum.splits prod.splits)
  have "reachable cfg (tr0 @ [ev]) s1"
    using Cons.prems(1) st by (rule reachable_step)
  from Cons.IH [OF this rest] show ?case by (simp add: tr)
qed

lemma compute_reachable: "compute cfg sched = Inr (tr, s) \<Longrightarrow> reachable cfg tr s"
  using run_reachable [OF reachable_init, of cfg sched tr s] by (simp add: compute_def)

lemma step_cases [consumes 1, case_names claim_file claim_done do_write read_more read_last do_print]:
  assumes "step cfg w s = Inr (ev, s')"
  obtains
    (claim_file) "w < num_threads cfg" "pc (workers s w) = Mapping"
      "unat (global_index s) < length (files_to_sweep cfg)"
      "ev = Claim w (global_index s)"
      "s' = s\<lparr>global_index := global_index s + 1,
              workers := (workers s)(w := (workers s w)\<lparr>local_freq :=
                process_file (ngram cfg) (files_to_sweep cfg ! unat (global_index s))
                  (local_freq (workers s w))\<rparr>)\<rparr>"
  | (claim_done) "w < num_threads cfg" "pc (workers s w) = Mapping"
      "\<not> unat (global_index s) < length (files_to_sweep cfg)"
      "ev = Claim w (global_index s)"
      "s' = s\<lparr>global_index := global_index s + 1,
              workers := (workers s)(w := (workers s w)\<lparr>assignment_matrix :=
                assign_all cfg (local_freq (workers s w)), pc := Writing 0\<rparr>)\<rparr>"
  | (do_write) i where "w < num_threads cfg" "pc (workers s w) = Writing i"
      "shuffle_matrix s i w = None" "ev = Write w i"
      "s' = s\<lparr>shuffle_matrix := (shuffle_matrix s)
                (i := (shuffle_matrix s i)(w \<mapsto> assignment_matrix (workers s w) ! i)),
              workers := (workers s)(w := (workers s w)\<lparr>pc :=
                (if i + 1 < num_threads cfg then Writing (i + 1) else Reading 0)\<rparr>)\<rparr>"
  | (read_more) t updates where "w < num_threads cfg" "pc (workers s w) = Reading t"
      "shuffle_matrix s w t = Some updates" "ev = Read w t" "t + 1 < num_threads cfg"
      "s' = s\<lparr>workers := (workers s)(w := (workers s w)\<lparr>reduced_freq :=
                apply_updates updates (reduced_freq (workers s w)), pc := Reading (t + 1)\<rparr>)\<rparr>"
  | (read_last) t updates where "w < num_threads cfg" "pc (workers s w) = Reading t"
      "shuffle_matrix s w t = Some updates" "ev = Read w t" "\<not> t + 1 < num_threads cfg"
      "s' = s\<lparr>workers := (workers s)(w := (workers s w)\<lparr>reduced_freq :=
                apply_updates updates (reduced_freq (workers s w)),
                top_five := select_top_five (apply_updates updates (reduced_freq (workers s w))),
                pc := Printing\<rparr>)\<rparr>"
  | (do_print) "w < num_threads cfg" "pc (workers s w) = Printing" "ev = Print w"
      "s' = s\<lparr>console := console s @ report w (top_five (workers s w)),
              workers := (workers s)(w := (workers s w)\<lparr>pc := Finished\<rparr>)\<rparr>"
proof -
  from assms have w: "w < num_threads cfg"
    by (auto simp: step_def split: if_splits)
  show thesis
  proof (cases "pc (workers s w)")
    case Mapping
    with assms w have st: "claim_step cfg w s = (ev, s')"
      by (simp add: step_def)
    show ?thesis
    proof (cases "unat (global_index s) < length (files_to_sweep cfg)")
      case True
      with st have "ev = Claim w (global_index s)"
        and "s' = s\<lparr>global_index := global_index s + 1,
              workers := (workers s)(w := (workers s w)\<lparr>local_freq :=
                process_file (ngram cfg) (files_to_sweep cfg ! unat (global_index s))
                  (local_freq (workers s w))\<rparr>)\<rparr>"
        by (simp_all add: claim_step_def set_worker_def Let_def)
      with w Mapping True show ?thesis by (rule claim_file)
    next
      case False
      with st have "ev = Claim w (global_index s)"
        and "s' = s\<lparr>global_index := global_index s + 1,
              workers := (workers s)(w := (workers s w)\<lparr>assignment_matrix :=
                assign_all cfg (local_freq (workers s w)), pc := Writing 0\<rparr>)\<rparr>"
        by (simp_all add: claim_step_def set_worker_def Let_def)
      with w Mapping False show ?thesis by (rule claim_done)
    qed
  next
    case (Writing i)
    with assms w have st: "write_step cfg w i s = Inr (ev, s')"
      by (simp add: step_def)
    show ?thesis
    proof (cases "shuffle_matrix s i w")
      case (Some v)
      with st show ?thesis by (simp add: write_step_def)
    next
      case None
      with st have "ev = Write w i"
        and "s' = s\<lparr>shuffle_matrix := (shuffle_matrix s)
                (i := (shuffle_matrix s i)(w \<mapsto> assignment_matrix (workers s w) ! i)),
              workers := (workers s)(w := (workers s w)\<lparr>pc :=
                (if i + 1 < num_threads cfg then Writing (i + 1) else Reading 0)\<rparr>)\<rparr>"
        by (simp_all add: write_step_def set_worker_def Let_def)
      with w Writing None show ?thesis by (rule do_write)
    qed
  next
    case (Reading t)
    with assms w have st: "read_step cfg w t s = Inr (ev, s')"
      by (simp add: step_def)
    show ?thesis
    proof (cases "shuffle_matrix s w t")
      case None
      with st show ?thesis by (simp add: read_step_def)
    next
      case (Some updates)
      show ?thesis
      proof (cases "t + 1 < num_threads cfg")
        case True
        with st Some have "ev = Read w t"
          and "s' = s\<lparr>workers := (workers s)(w := (workers s w)\<lparr>reduced_freq :=
                apply_updates updates (reduced_freq (workers s w)), pc := Reading (t + 1)\<rparr>)\<rparr>"
          by (simp_all add: read_step_def set_worker_def Let_def)
        then show ?thesis using w Reading Some True read_more by blast
      next
        case False
        with st Some have "ev = Read w t"
          and "s' = s\<lparr>workers := (workers s)(w := (workers s w)\<lparr>reduced_freq :=
                apply_updates updates (reduced_freq (workers s w)),
                top_five := select_top_five (apply_updates updates (reduced_freq (workers s w))),
                pc := Printing\<rparr>)\<rparr>"
          by (simp_all add: read_step_def set_worker_def Let_def)
        then show ?thesis using w Reading Some False read_last by blast
      qed
    qed
  next
    case Printing
    with assms w have st: "print_step w s = (ev, s')"
      by (simp add: step_def)
    then have "ev = Print w"
      and "s' = s\<lparr>console := console s @ report w (top_five (workers s w)),
              workers := (workers s)(w := (workers s w)\<lparr>pc := Finished\<rparr>)\<rparr>"
      by (simp_all add: print_step_def set_worker_def Let_def)
    with w Printing show ?thesis by (rule do_print)
  next
    case Finished
    with assms w show ?thesis by (simp add: step_def)
  qed
qed

lemma init_fields:
  "global_index init_state = 0" "shuffle_matrix init_state i j = None"
  "workers init_state w = init_worker" "console init_state = []"
  "pc init_worker = Mapping" "local_freq init_worker = []" "reduced_freq init_worker = []"
  by (simp_all add: init_state_def init_worker_def)

lemma pc_bounds:
  assumes "reachable cfg tr s" "w < num_threads cfg"
  shows "(pc (workers s w) = Writing i \<longrightarrow> i < num_threads cfg)
       \<and> (pc (workers s w) = Reading t \<longrightarrow> t < num_threads cfg)"
  using assms
proof (induction arbitrary: w i t rule: reachable.induct)
  case reachable_init
  then show ?case by (simp add: init_fields)
next
  case (reachable_step tr s v ev s')
  note IH = reachable_step.IH [OF reachable_step.prems]
  from reachable_step.hyps(2) show ?case
  proof (cases rule: step_cases)
    case claim_file
    then show ?thesis using IH [of i t] by (cases "w = v") simp_all
  next
    case claim_done
    then show ?thesis using IH [of i t] by (cases "w = v") simp_all
  next
    case (do_write j)
    then show ?thesis using IH [of i t] by (cases "w = v") (auto split: if_splits)
  next
    case (read_more j updates)
    then show ?thesis using IH [of i t] by (cases "w = v") (auto split: if_splits)
  next
    case (read_last j updates)
    then show ?thesis using IH [of i t] by (cases "w = v") simp_all
  next
    case do_print
    then show ?thesis using IH [of i t] by (cases "w = v") simp_all
  qed
qed

subsection \<open>Promises and assignments\<close>

lemma slots:
  assumes "reachable cfg tr s"
  shows "shuffle_matrix s i p =
     (if p < num_threads cfg \<and> i < num_threads cfg \<and> written (pc (workers s p)) i
      then Some (assignment_matrix (workers s p) ! i) else None)"
  using assms
proof (induction arbitrary: i p rule: reachable.induct)
  case reachable_init
  then show ?case by (simp add: init_fields)
next
  case (reachable_step tr s v ev s')
  note IH = reachable_step.IH [of i p]
  note bounds = pc_bounds [OF reachable_step.hyps(1)]
  from reachable_step.hyps(2) show ?case
  proof (cases rule: step_cases)
    case claim_file
    then show ?thesis using IH by (cases "p = v") simp_all
  next
    case claim_done
    then show ?thesis using IH by (cases "p = v") simp_all
  next
    case (do_write j)
    with bounds [of v j] have "j < num_threads cfg" by simp
    with do_write show ?thesis using IH
      by (cases "p = v"; cases "i = j") (auto simp: less_Suc_eq)
  next
    case (read_more j updates)
    then show ?thesis using IH by (cases "p = v") simp_all
  next
    case (read_last j updates)
    then show ?thesis using IH by (cases "p = v") simp_all
  next
    case do_print
    then show ?thesis using IH by (cases "p = v") simp_all
  qed
qed

lemma assignment_inv:
  assumes "reachable cfg tr s" "w < num_threads cfg" "pc (workers s w) \<noteq> Mapping"
  shows "assignment_matrix (workers s w) = assign_all cfg (local_freq (workers s w))"
  using assms
proof (induction arbitrary: w rule: reachable.induct)
  case reachable_init
  then show ?case by (simp add: init_fields)
next
  case (reachable_step tr s v ev s')
  note IH = reachable_step.IH [of w]
  from reachable_step.hyps(2) show ?case
  proof (cases rule: step_cases)
    case claim_file
    then show ?thesis using IH reachable_step.prems by (cases "w = v") simp_all
  next
    case claim_done
    then show ?thesis using IH reachable_step.prems by (cases "w = v") simp_all
  next
    case (do_write j)
    then show ?thesis using IH reachable_step.prems by (cases "w = v") simp_all
  next
    case (read_more j updates)
    then show ?thesis using IH reachable_step.prems by (cases "w = v") simp_all
  next
    case (read_last j updates)
    then show ?thesis using IH reachable_step.prems by (cases "w = v") simp_all
  next
    case do_print
    then show ?thesis using IH reachable_step.prems by (cases "w = v") simp_all
  qed
qed

subsection \<open>Readers and writers\<close>

lemma assign_fold_nth:
  "length am = num_threads cfg \<Longrightarrow> w < num_threads cfg \<Longrightarrow>
   fold (assign_pair cfg) m am ! w = am ! w @ owned cfg w m
   \<and> length (fold (assign_pair cfg) m am) = num_threads cfg"
proof (induction m arbitrary: am)
  case Nil
  then show ?case by (simp add: owned_def)
next
  case (Cons e m)
  let ?a = "str_hash cfg (fst e) mod num_threads cfg"
  have a: "?a < num_threads cfg" using Cons.prems(2) by simp
  have len: "length (assign_pair cfg e am) = num_threads cfg"
    using Cons.prems(1) by (simp add: assign_pair_def Let_def)
  have nth: "assign_pair cfg e am ! w = am ! w @ (if ?a = w then [e] else [])"
    using Cons.prems a by (simp add: assign_pair_def Let_def nth_list_update)
  from Cons.IH [OF len Cons.prems(2)] nth show ?case
    by (simp add: owned_def)
qed

lemma assign_all_nth:
  "w < num_threads cfg \<Longrightarrow> assign_all cfg m ! w = owned cfg w m"
  using assign_fold_nth [of "replicate (num_threads cfg) []" cfg w m]
  by (simp add: assign_all_def)

lemma written_slot:
  assumes "reachable cfg tr s" "shuffle_matrix s w t = Some updates"
  shows "t < num_threads cfg" "w < num_threads cfg" "written (pc (workers s t)) w"
    "updates = owned cfg w (local_freq (workers s t))"
proof -
  from assms slots [OF assms(1), of w t]
  show t: "t < num_threads cfg" and w: "w < num_threads cfg"
    and wr: "written (pc (workers s t)) w"
    by (auto split: if_splits)
  from wr have "pc (workers s t) \<noteq> Mapping" by auto
  from assignment_inv [OF assms(1) t this] assms slots [OF assms(1), of w t] t w wr
  show "updates = owned cfg w (local_freq (workers s t))"
    by (simp add: assign_all_nth)
qed

lemma step_pc:
  assumes "step cfg v s = Inr (ev, s')"
  shows "\<exists>q. (\<forall>x. pc (workers s' x) = (if x = v then q else pc (workers s x)))
    \<and> (\<forall>i. written (pc (workers s v)) i \<longrightarrow> written q i)
    \<and> (q = Mapping \<longrightarrow> pc (workers s v) = Mapping)"
  using assms
proof (cases rule: step_cases)
  case claim_file
  then show ?thesis by (intro exI [of _ Mapping]) simp
next
  case claim_done
  then show ?thesis by (intro exI [of _ "Writing 0"]) simp
next
  case (do_write j)
  then show ?thesis
    by (intro exI [of _ "if j + 1 < num_threads cfg then Writing (j + 1) else Reading 0"]) simp
next
  case (read_more j updates)
  then show ?thesis by (intro exI [of _ "Reading (j + 1)"]) simp
next
  case (read_last j updates)
  then show ?thesis by (intro exI [of _ Printing]) simp
next
  case do_print
  then show ?thesis by (intro exI [of _ Finished]) simp
qed

lemma step_written_mono:
  assumes "step cfg v s = Inr (ev, s')" "written (pc (workers s p)) i"
  shows "written (pc (workers s' p)) i"
  using step_pc [OF assms(1)] assms(2) by (cases "p = v") auto

lemma step_progress:
  assumes "step cfg v s = Inr (ev, s')" "reachable cfg tr s"
  shows "progress (num_threads cfg) (pc (workers s' w)) =
     (if w = v \<and> (\<exists>t. ev = Read v t)
      then Suc (progress (num_threads cfg) (pc (workers s w)))
      else progress (num_threads cfg) (pc (workers s w)))"
  using assms(1)
proof (cases rule: step_cases)
  case claim_file
  then show ?thesis by (cases "w = v") simp_all
next
  case claim_done
  then show ?thesis by (cases "w = v") simp_all
next
  case (do_write j)
  then show ?thesis by (cases "w = v") simp_all
next
  case (read_more j updates)
  then show ?thesis by (cases "w = v") simp_all
next
  case (read_last j updates)
  from pc_bounds [OF assms(2) read_last(1), of 0 j] read_last
  have "j + 1 = num_threads cfg" by simp
  with read_last show ?thesis by (cases "w = v") auto
next
  case do_print
  then show ?thesis by (cases "w = v") simp_all
qed

lemma step_read_slot:
  assumes "step cfg v s = Inr (Read x t, s')"
  shows "x = v \<and> pc (workers s v) = Reading t \<and> (\<exists>updates. shuffle_matrix s v t = Some updates)"
  using assms by (cases rule: step_cases) auto

lemma readers_have_writers:
  assumes "reachable cfg tr s" "w < num_threads cfg"
    "p < progress (num_threads cfg) (pc (workers s w))"
  shows "p < num_threads cfg \<and> written (pc (workers s p)) w"
  using assms
proof (induction arbitrary: w p rule: reachable.induct)
  case reachable_init
  then show ?case by (simp add: init_fields)
next
  case (reachable_step tr s v ev s')
  note st = reachable_step.hyps(2)
  note reach = reachable_step.hyps(1)
  note prog = step_progress [OF st reach, of w]
  show ?case
  proof (cases "w = v \<and> (\<exists>t. ev = Read v t)")
    case False
    with prog reachable_step.prems
    have "p < progress (num_threads cfg) (pc (workers s w))" by auto
    from reachable_step.IH [OF reachable_step.prems(1) this] step_written_mono [OF st]
    show ?thesis by blast
  next
    case True
    then obtain t where ev: "ev = Read v t" and wv: "w = v" by blast
    from step_read_slot [OF st [unfolded ev]] obtain updates
      where pc: "pc (workers s v) = Reading t" and slot: "shuffle_matrix s v t = Some updates"
      by blast
    from prog True reachable_step.prems pc have "p < Suc t" by (simp add: wv)
    then consider "p < t" | "p = t" by linarith
    then show ?thesis
    proof cases
      case 1
      then have "p < progress (num_threads cfg) (pc (workers s w))" by (simp add: wv pc)
      from reachable_step.IH [OF reachable_step.prems(1) this] step_written_mono [OF st]
      show ?thesis by blast
    next
      case 2
      from written_slot [OF reach slot] step_written_mono [OF st]
      show ?thesis by (simp add: 2 wv)
    qed
  qed
qed

subsection \<open>Tables and the reduced table\<close>

lemma table_inv_Nil: "table_inv []"
  by (simp add: table_inv_def)

lemma keys_table_add: "fst ` set (table_add k d m) = insert k (fst ` set m)"
proof (induction m)
  case Nil
  show ?case by simp
next
  case (Cons e m)
  obtain k' c where e: "e = (k', c)" by (cases e)
  show ?case using Cons.IH by (simp add: e insert_commute)
qed

lemma table_inv_add: "table_inv m \<Longrightarrow> table_inv (table_add k d m)"
proof (induction m)
  case Nil
  then show ?case by (simp add: table_inv_def)
next
  case (Cons e m)
  obtain k' c where e: "e = (k', c)" by (cases e)
  from Cons.prems have tail: "table_inv m" and above: "\<forall>x\<in>fst ` set m. k' < x"
    by (auto simp: table_inv_def e)
  show ?case
  proof (cases "k = k'")
    case True
    then show ?thesis using Cons.prems by (simp add: e table_inv_def)
  next
    case False
    show ?thesis
    proof (cases "k < k'")
      case True
      then show ?thesis using Cons.prems \<open>k \<noteq> k'\<close> by (auto simp: e table_inv_def)
    next
      case False
      then have "k' < k" using \<open>k \<noteq> k'\<close> by auto
      then have "\<forall>x\<in>fst ` set (table_add k d m). k' < x"
        using above by (simp add: keys_table_add)
      then show ?thesis
        using Cons.IH [OF tail] False \<open>k \<noteq> k'\<close> by (auto simp: e table_inv_def)
    qed
  qed
qed

lemma table_inv_distinct: "table_inv m \<Longrightarrow> distinct (map fst m)"
  by (simp add: table_inv_def strict_sorted_iff)

lemma count_of_absent:
  assumes "k \<notin> fst ` set m"
  shows "count_of m k = 0"
proof -
  have "map_of m k = None" using assms by (simp add: map_of_eq_None_iff)
  then show ?thesis by (simp add: count_of_def)
qed

lemma count_of_add:
  "table_inv m \<Longrightarrow> count_of (table_add k d m) k' = count_of m k' + (if k' = k then d else 0)"
proof (induction m)
  case Nil
  then show ?case by (simp add: count_of_def)
next
  case (Cons e m)
  obtain k0 c where e: "e = (k0, c)" by (cases e)
  from Cons.prems have tail: "table_inv m" and above: "\<forall>x\<in>fst ` set m. k0 < x"
    by (auto simp: table_inv_def e)
  show ?case
  proof (cases "k = k0")
    case True
    then show ?thesis by (simp add: e count_of_def)
  next
    case False
    show ?thesis
    proof (cases "k < k0")
      case True
      then have "k \<notin> fst ` set m" using above by (auto simp: less_le_not_le)
      then have "map_of m k = None" by (simp add: map_of_eq_None_iff)
      then show ?thesis using True False by (simp add: e count_of_def)
    next
      case False
      then show ?thesis
        using Cons.IH [OF tail] \<open>k \<noteq> k0\<close>
        by (cases "k' = k") (simp_all add: e count_of_def)
    qed
  qed
qed

lemma count_of_entry: "table_inv m \<Longrightarrow> (k, c) \<in> set m \<Longrightarrow> count_of m k = c"
  by (simp add: count_of_def table_inv_distinct)

lemma table_eqI:
  assumes "table_inv m1" "table_inv m2"
    and keys: "fst ` set m1 = fst ` set m2"
    and counts: "\<And>k. count_of m1 k = count_of m2 k"
  shows "m1 = m2"
proof -
  have d1: "distinct (map fst m1)" and d2: "distinct (map fst m2)"
    using assms by (simp_all add: table_inv_distinct)
  have "set m1 = set m2"
  proof (rule set_eqI)
    fix e :: entry
    obtain k c where e: "e = (k, c)" by (cases e)
    show "e \<in> set m1 \<longleftrightarrow> e \<in> set m2"
    proof
      assume "e \<in> set m1"
      then have "k \<in> fst ` set m1" by (force simp: e)
      with \<open>e \<in> set m1\<close> have "count_of m1 k = c" "k \<in> fst ` set m2"
        using assms(1) keys by (auto simp: e count_of_entry)
      then obtain c' where "(k, c') \<in> set m2" by auto
      then show "e \<in> set m2"
        using \<open>count_of m1 k = c\<close> counts [of k] assms(2) by (auto simp: e count_of_entry)
    next
      assume "e \<in> set m2"
      then have "k \<in> fst ` set m2" by (force simp: e)
      with \<open>e \<in> set m2\<close> have "count_of m2 k = c" "k \<in> fst ` set m1"
        using assms(2) keys by (auto simp: e count_of_entry)
      then obtain c' where "(k, c') \<in> set m1" by auto
      then show "e \<in> set m1"
        using \<open>count_of m2 k = c\<close> counts [of k] assms(1) by (auto simp: e count_of_entry)
    qed
  qed
  moreover have "inj_on fst (set m1 \<union> set m2)"
    using d1 \<open>set m1 = set m2\<close> by (simp add: distinct_map)
  moreover have "sorted (map fst m1)" "sorted (map fst m2)"
    using assms(1,2) by (simp_all add: table_inv_def strict_sorted_iff)
  ultimately show ?thesis
    using d1 d2 by (intro map_sorted_distinct_set_unique [of fst])
qed

lemma fold_incr_inv: "table_inv m \<Longrightarrow> table_inv (fold (\<lambda>g. table_add g 1) gs m)"
  by (induction gs arbitrary: m) (auto simp: table_inv_add)

lemma fold_incr_keys: "fst ` set (fold (\<lambda>g. table_add g 1) gs m) = fst ` set m \<union> set gs"
  by (induction gs arbitrary: m) (auto simp: keys_table_add)

lemma fold_incr_count:
  "table_inv m \<Longrightarrow>
   count_of (fold (\<lambda>g. table_add g 1) gs m) k = count_of m k + of_nat (count_list gs k)"
  by (induction gs arbitrary: m) (auto simp: table_inv_add count_of_add)

lemma map_of_filter_key:
  "map_of (filter (\<lambda>e. Q (fst e)) m) k = (if Q k then map_of m k else None)"
  by (induction m) auto

lemma count_of_filter_key:
  "count_of (filter (\<lambda>e. Q (fst e)) m) k = (if Q k then count_of m k else 0)"
  by (simp add: count_of_def map_of_filter_key)

lemma table_inv_filter: "table_inv m \<Longrightarrow> table_inv (filter P m)"
  unfolding table_inv_def by (induction m) auto

lemma count_of_owned:
  "count_of (owned cfg w m) k =
     (if str_hash cfg k mod num_threads cfg = w then count_of m k else 0)"
  unfolding owned_def by (rule count_of_filter_key)

lemma keys_owned:
  "fst ` set (owned cfg w m) = {k \<in> fst ` set m. str_hash cfg k mod num_threads cfg = w}"
  by (auto simp: owned_def)

lemma table_inv_owned: "table_inv m \<Longrightarrow> table_inv (owned cfg w m)"
  unfolding owned_def by (rule table_inv_filter)

lemma apply_updates_Nil: "apply_updates [] m = m"
  by (simp add: apply_updates_def)

lemma apply_updates_Cons: "apply_updates ((g, c) # us) m = apply_updates us (table_add g c m)"
  by (simp add: apply_updates_def)

lemma table_inv_apply_updates: "table_inv m \<Longrightarrow> table_inv (apply_updates us m)"
proof (induction us arbitrary: m)
  case Nil
  then show ?case by (simp add: apply_updates_Nil)
next
  case (Cons u us)
  obtain g c where u: "u = (g, c)" by (cases u)
  from Cons show ?case by (simp add: u apply_updates_Cons table_inv_add)
qed

lemma keys_apply_updates: "fst ` set (apply_updates us m) = fst ` set m \<union> fst ` set us"
proof (induction us arbitrary: m)
  case Nil
  then show ?case by (simp add: apply_updates_Nil)
next
  case (Cons u us)
  obtain g c where u: "u = (g, c)" by (cases u)
  from Cons show ?case by (simp add: u apply_updates_Cons keys_table_add)
qed

text \<open>Adding the entries of a table with distinct keys adds each key's count once.\<close>

lemma count_of_apply_updates:
  assumes "table_inv m" "distinct (map fst us)"
  shows "count_of (apply_updates us m) k = count_of m k + count_of us k"
  using assms
proof (induction us arbitrary: m)
  case Nil
  then show ?case by (simp add: apply_updates_Nil count_of_def)
next
  case (Cons u us)
  obtain g c where u: "u = (g, c)" by (cases u)
  from Cons.prems have d: "distinct (map fst us)" and g: "g \<notin> fst ` set us"
    by (simp_all add: u)
  have 1: "count_of (apply_updates (u # us) m) k = count_of (table_add g c m) k + count_of us k"
    using Cons.IH [OF table_inv_add [OF Cons.prems(1)] d] by (simp add: u apply_updates_Cons)
  have 2: "count_of (table_add g c m) k = count_of m k + (if k = g then c else 0)"
    by (simp add: count_of_add [OF Cons.prems(1)])
  have 3: "count_of (u # us) k = (if k = g then c else 0) + count_of us k"
    using g by (auto simp: u count_of_def count_of_absent [unfolded count_of_def])
  show ?case
    unfolding 1 2 3 by (simp add: add.assoc)
qed

lemma merged_0: "merged cfg s w 0 = []"
  by (simp add: merged_def)

lemma merged_Suc:
  "merged cfg s w (Suc t) =
     apply_updates (owned cfg w (local_freq (workers s t))) (merged cfg s w t)"
  by (simp add: merged_def)

lemma merged_cong:
  "(\<And>p. p < t \<Longrightarrow> local_freq (workers s' p) = local_freq (workers s p)) \<Longrightarrow>
   merged cfg s' w t = merged cfg s w t"
  by (induction t) (simp_all add: merged_0 merged_Suc)

lemma step_local_freq:
  assumes "step cfg v s = Inr (ev, s')"
  shows "local_freq (workers s' x) =
     (if x = v \<and> pc (workers s v) = Mapping
         \<and> unat (global_index s) < length (files_to_sweep cfg)
      then process_file (ngram cfg) (files_to_sweep cfg ! unat (global_index s))
             (local_freq (workers s v))
      else local_freq (workers s x))"
  using assms by (cases rule: step_cases; cases "x = v") simp_all

lemma step_reduced_freq:
  assumes "step cfg v s = Inr (ev, s')"
  shows "reduced_freq (workers s' x) =
     (if x = v \<and> (\<exists>t. ev = Read v t)
      then apply_updates (the (shuffle_matrix s v (progress (num_threads cfg) (pc (workers s v)))))
             (reduced_freq (workers s v))
      else reduced_freq (workers s x))"
  using assms by (cases rule: step_cases; cases "x = v") simp_all

lemma written_not_Mapping: "written q i \<Longrightarrow> q \<noteq> Mapping"
  by auto

lemma reduced_is_merged:
  assumes "reachable cfg tr s" "w < num_threads cfg"
  shows "reduced_freq (workers s w) =
     merged cfg s w (progress (num_threads cfg) (pc (workers s w)))"
  using assms
proof (induction arbitrary: w rule: reachable.induct)
  case reachable_init
  then show ?case by (simp add: init_fields merged_0)
next
  case (reachable_step tr s v ev s')
  note st = reachable_step.hyps(2)
  note reach = reachable_step.hyps(1)
  note w = reachable_step.prems
  note prog = step_progress [OF st reach, of w]
  let ?t = "progress (num_threads cfg) (pc (workers s w))"
  have stable: "local_freq (workers s' p) = local_freq (workers s p)"
    if "written (pc (workers s p)) i" for p i
    using step_local_freq [OF st, of p] written_not_Mapping [OF that] by auto
  have same: "merged cfg s' w ?t = merged cfg s w ?t"
  proof (rule merged_cong)
    fix p assume "p < ?t"
    from readers_have_writers [OF reach w this] show
      "local_freq (workers s' p) = local_freq (workers s p)"
      using stable by blast
  qed
  show ?case
  proof (cases "w = v \<and> (\<exists>t. ev = Read v t)")
    case False
    with prog step_reduced_freq [OF st, of w] reachable_step.IH [OF w] same
    show ?thesis by auto
  next
    case True
    then obtain t where ev: "ev = Read v t" and wv: "w = v" by blast
    from step_read_slot [OF st [unfolded ev]] obtain updates
      where pc: "pc (workers s v) = Reading t" and slot: "shuffle_matrix s v t = Some updates"
      by blast
    note ws = written_slot [OF reach slot]
    have "reduced_freq (workers s' w) = apply_updates updates (merged cfg s w t)"
      using step_reduced_freq [OF st, of w] True reachable_step.IH [OF w] pc slot
      by (simp add: wv)
    also have "\<dots> = apply_updates (owned cfg w (local_freq (workers s' t))) (merged cfg s' w t)"
      using ws(4) stable [OF ws(3)] same pc by (simp add: wv)
    also have "\<dots> = merged cfg s' w (Suc t)"
      by (simp add: merged_Suc)
    finally show ?thesis
      using prog True pc by (simp add: wv)
  qed
qed

lemma top_five_selected:
  assumes "reachable cfg tr s" "w < num_threads cfg"
    "pc (workers s w) = Printing \<or> pc (workers s w) = Finished"
  shows "top_five (workers s w) = select_top_five (reduced_freq (workers s w))"
  using assms
proof (induction arbitrary: w rule: reachable.induct)
  case reachable_init
  then show ?case by (simp add: init_fields)
next
  case (reachable_step tr s v ev s')
  note IH = reachable_step.IH [of w]
  from reachable_step.hyps(2) show ?case
    using IH reachable_step.prems
    by (cases rule: step_cases; cases "w = v") (simp_all split: if_splits)
qed

lemma table_inv_process_file: "table_inv m \<Longrightarrow> table_inv (process_file ng contents m)"
  by (simp add: process_file_emitted fold_incr_inv)

lemma local_table_inv:
  assumes "reachable cfg tr s"
  shows "table_inv (local_freq (workers s w))"
  using assms
proof (induction rule: reachable.induct)
  case reachable_init
  then show ?case by (simp add: init_fields table_inv_Nil)
next
  case (reachable_step tr s v ev s')
  then show ?case
    using step_local_freq [OF reachable_step.hyps(2), of w]
    by (auto simp: table_inv_process_file)
qed

lemma table_inv_merged:
  "(\<And>p. table_inv (local_freq (workers s p))) \<Longrightarrow> table_inv (merged cfg s w t)"
  by (induction t) (simp_all add: merged_0 merged_Suc table_inv_Nil table_inv_apply_updates)

lemma reduced_table_inv:
  assumes "reachable cfg tr s" "w < num_threads cfg"
  shows "table_inv (reduced_freq (workers s w))"
  using reduced_is_merged [OF assms] table_inv_merged [of s cfg w] local_table_inv [OF assms(1)]
  by simp

subsection \<open>The file index\<close>

lemma claims_snoc: "claims (tr @ [ev]) = claims tr @ claim_of ev"
  by (simp add: claims_def)

lemma unat_succ: "Suc (unat (x::64 word)) < 2 ^ 64 \<Longrightarrow> unat (x + 1) = Suc (unat x)"
  using unat_add_lem [of x 1] by simp

lemma step_claim:
  assumes "step cfg v s = Inr (ev, s')"
  shows "claim_of ev =
     (if pc (workers s v) = Mapping then [(v, global_index s)] else [])"
    and "global_index s' =
     (if pc (workers s v) = Mapping then global_index s + 1 else global_index s)"
    and "v < num_threads cfg"
  using assms by (cases rule: step_cases; simp)+

lemma step_leavers:
  assumes "step cfg v s = Inr (ev, s')"
  shows "leavers cfg s' =
     (if pc (workers s v) = Mapping \<and> \<not> unat (global_index s) < length (files_to_sweep cfg)
      then insert v (leavers cfg s) else leavers cfg s)"
  using assms
proof (cases rule: step_cases)
  case claim_file
  then show ?thesis by (auto simp: leavers_def)
next
  case claim_done
  then show ?thesis by (auto simp: leavers_def)
next
  case (do_write j)
  then show ?thesis by (auto simp: leavers_def)
next
  case (read_more j updates)
  then show ?thesis by (auto simp: leavers_def)
next
  case (read_last j updates)
  then show ?thesis by (auto simp: leavers_def)
next
  case do_print
  then show ?thesis by (auto simp: leavers_def)
qed

lemma finite_leavers: "finite (leavers cfg s)"
  by (simp add: leavers_def)

lemma card_leavers: "card (leavers cfg s) \<le> num_threads cfg"
proof -
  have "leavers cfg s \<subseteq> {..<num_threads cfg}" by (auto simp: leavers_def)
  then have "card (leavers cfg s) \<le> card {..<num_threads cfg}"
    by (intro card_mono) simp_all
  then show ?thesis by simp
qed

lemma cursor_inv:
  assumes "reachable cfg tr s"
    and "length (files_to_sweep cfg) + num_threads cfg < 2 ^ 64"
  shows "map unat (claim_values tr) = [0..<length (claims tr)]
    \<and> unat (global_index s) = length (claims tr)
    \<and> length (claims tr) \<le> length (files_to_sweep cfg) + card (leavers cfg s)
    \<and> (leavers cfg s \<noteq> {} \<longrightarrow> length (files_to_sweep cfg) \<le> length (claims tr))"
  using assms
proof (induction rule: reachable.induct)
  case reachable_init
  then show ?case by (simp add: init_fields claims_def claim_values_def leavers_def)
next
  case (reachable_step tr s v ev s')
  note st = reachable_step.hyps(2)
  note IH = reachable_step.IH [OF reachable_step.prems]
  let ?L = "length (files_to_sweep cfg)"
  let ?c = "length (claims tr)"
  show ?case
  proof (cases "pc (workers s v) = Mapping")
    case False
    with step_claim [OF st] step_leavers [OF st] IH show ?thesis
      by (simp add: claims_snoc claim_values_def)
  next
    case True
    with step_claim [OF st] have ev: "claim_of ev = [(v, global_index s)]"
      and gi: "global_index s' = global_index s + 1" and v: "v < num_threads cfg"
      by simp_all
    from IH have c: "unat (global_index s) = ?c" by simp
    have bound: "Suc ?c \<le> ?L + card (leavers cfg s')
        \<and> (leavers cfg s' \<noteq> {} \<longrightarrow> ?L \<le> Suc ?c)"
    proof (cases "?c < ?L")
      case True
      with step_leavers [OF st] c IH show ?thesis by auto
    next
      case False
      then have "leavers cfg s' = insert v (leavers cfg s)"
        using step_leavers [OF st] c \<open>pc (workers s v) = Mapping\<close> by simp
      moreover have "v \<notin> leavers cfg s"
        using \<open>pc (workers s v) = Mapping\<close> by (simp add: leavers_def)
      ultimately have "card (leavers cfg s') = Suc (card (leavers cfg s))"
        by (simp add: finite_leavers)
      with IH False show ?thesis by auto
    qed
    with card_leavers [of cfg s'] reachable_step.prems have "Suc ?c < 2 ^ 64"
      by linarith
    with c have "unat (global_index s + 1) = Suc ?c"
      by (simp add: unat_succ)
    with bound IH c ev gi show ?thesis
      by (simp add: claims_snoc claim_values_def)
  qed
qed

lemma claims_workers:
  assumes "reachable cfg tr s" "c \<in> set (claims tr)"
  shows "fst c < num_threads cfg"
  using assms
proof (induction rule: reachable.induct)
  case reachable_init
  then show ?case by (simp add: claims_def)
next
  case (reachable_step tr s v ev s')
  with step_claim [OF reachable_step.hyps(2)] show ?case
    by (auto simp: claims_snoc split: if_splits)
qed

text \<open>The local table of a worker is the table of the files it claimed, in that order.\<close>

lemma local_is_claimed:
  assumes "reachable cfg tr s"
  shows "local_freq (workers s w) =
     fold (process_file (ngram cfg)) (map ((!) (files_to_sweep cfg)) (claimed_by cfg tr w)) []"
  using assms
proof (induction rule: reachable.induct)
  case reachable_init
  then show ?case by (simp add: init_fields claims_def claimed_by_def)
next
  case (reachable_step tr s v ev s')
  note st = reachable_step.hyps(2)
  show ?case
    using step_claim(1) [OF st] step_local_freq [OF st, of w] reachable_step.IH
    by (auto simp: claimed_by_def claims_snoc)
qed

subsection \<open>Counting occurrences\<close>

lemma count_of_Nil: "count_of [] k = 0"
  by (simp add: count_of_def)

lemma fold_process_files:
  "fold (process_file ng) fs m = fold (\<lambda>g. table_add g 1) (concat (map (emitted ng) fs)) m"
  by (induction fs arbitrary: m) (simp_all add: process_file_emitted)

lemma count_list_concat_map:
  "count_list (concat (map f xs)) k = sum_list (map (\<lambda>x. count_list (f x) k) xs)"
  by (induction xs) simp_all

lemma keys_files_table:
  "fst ` set (fold (process_file ng) fs []) = (\<Union>f \<in> set fs. set (emitted ng f))"
  by (simp add: fold_process_files fold_incr_keys)

lemma count_files_table:
  "count_of (fold (process_file ng) fs []) k =
     of_nat (sum_list (map (\<lambda>f. count_list (emitted ng f) k) fs))"
  by (simp add: fold_process_files fold_incr_count table_inv_Nil count_list_concat_map count_of_Nil)

lemma table_inv_files_table: "table_inv (fold (process_file ng) fs [])"
  by (simp add: fold_process_files fold_incr_inv table_inv_Nil)

lemma local_keys:
  assumes "reachable cfg tr s"
  shows "fst ` set (local_freq (workers s w)) =
     (\<Union>i \<in> set (claimed_by cfg tr w). set (emitted (ngram cfg) (files_to_sweep cfg ! i)))"
  by (simp add: local_is_claimed [OF assms] keys_files_table)

lemma local_count:
  assumes "reachable cfg tr s"
  shows "count_of (local_freq (workers s w)) k =
     of_nat (sum_list (map (occurrences cfg k) (claimed_by cfg tr w)))"
  by (simp add: local_is_claimed [OF assms] count_files_table occurrences_def [abs_def] o_def)

text \<open>Summing over the workers what each claimed is summing over what was claimed.\<close>

lemma sum_by_worker:
  fixes g :: "'a \<Rightarrow> 'b::comm_monoid_add" and n :: nat
  assumes "\<forall>c \<in> set cs. fst c < n"
  shows "(\<Sum>w<n. sum_list (map (\<lambda>c. g (snd c)) (filter (\<lambda>c. fst c = w \<and> P (snd c)) cs)))
       = sum_list (map (\<lambda>c. g (snd c)) (filter (\<lambda>c. P (snd c)) cs))"
  using assms
proof (induction cs)
  case Nil
  then show ?case by simp
next
  case (Cons c cs)
  then have IH: "(\<Sum>w<n. sum_list (map (\<lambda>c. g (snd c)) (filter (\<lambda>c. fst c = w \<and> P (snd c)) cs)))
       = sum_list (map (\<lambda>c. g (snd c)) (filter (\<lambda>c. P (snd c)) cs))"
    and c: "fst c < n" by simp_all
  have "(\<Sum>w<n. sum_list (map (\<lambda>c. g (snd c)) (filter (\<lambda>c. fst c = w \<and> P (snd c)) (c # cs))))
      = (\<Sum>w<n. (if fst c = w \<and> P (snd c) then g (snd c) else 0)
            + sum_list (map (\<lambda>c. g (snd c)) (filter (\<lambda>c. fst c = w \<and> P (snd c)) cs)))"
    by (intro sum.cong) auto
  also have "\<dots> = (\<Sum>w<n. if fst c = w \<and> P (snd c) then g (snd c) else 0)
      + sum_list (map (\<lambda>c. g (snd c)) (filter (\<lambda>c. P (snd c)) cs))"
    by (simp add: sum.distrib IH)
  also have "(\<Sum>w<n. if fst c = w \<and> P (snd c) then g (snd c) else 0)
      = (if P (snd c) then g (snd c) else 0)"
  proof (cases "P (snd c)")
    case True
    then have "(\<Sum>w<n. if fst c = w \<and> P (snd c) then g (snd c) else 0)
        = (\<Sum>w\<in>{..<n}. if fst c = w then g (snd c) else 0)"
      by simp
    also have "\<dots> = g (snd c)"
      using c by simp
    finally show ?thesis using True by simp
  next
    case False
    then show ?thesis by simp
  qed
  finally show ?case by simp
qed

lemma filter_upt_less: "filter (\<lambda>i. i < L) [0..<c] = [0..<min c L]"
proof (induction c)
  case 0
  show ?case by simp
next
  case (Suc c)
  show ?case
  proof (cases "c < L")
    case True
    with Suc show ?thesis by (simp add: min_def)
  next
    case False
    then have "min c L = L" "min (Suc c) L = L" by simp_all
    with Suc False show ?thesis by simp
  qed
qed

lemma in_range_claims:
  assumes "reachable cfg tr s"
    and "length (files_to_sweep cfg) + num_threads cfg < 2 ^ 64"
  shows "map (\<lambda>c. unat (snd c))
           (filter (\<lambda>c. unat (snd c) < length (files_to_sweep cfg)) (claims tr))
         = [0..<min (length (claims tr)) (length (files_to_sweep cfg))]"
proof -
  let ?L = "length (files_to_sweep cfg)"
  have "map (\<lambda>c. unat (snd c)) (filter (\<lambda>c. unat (snd c) < ?L) (claims tr))
      = filter (\<lambda>i. i < ?L) (map (\<lambda>c. unat (snd c)) (claims tr))"
    by (simp add: filter_map o_def)
  also have "map (\<lambda>c. unat (snd c)) (claims tr) = [0..<length (claims tr)]"
    using cursor_inv [OF assms] by (simp add: claim_values_def o_def)
  also have "filter (\<lambda>i. i < ?L) [0..<length (claims tr)] = [0..<min (length (claims tr)) ?L]"
    by (rule filter_upt_less)
  finally show ?thesis .
qed

subsection \<open>The final tables\<close>

lemma claimed_sum:
  fixes f :: "nat \<Rightarrow> 'b::comm_monoid_add"
  assumes "reachable cfg tr s"
    and "length (files_to_sweep cfg) + num_threads cfg < 2 ^ 64"
  shows "(\<Sum>w<num_threads cfg. sum_list (map f (claimed_by cfg tr w)))
       = sum_list (map f [0..<min (length (claims tr)) (length (files_to_sweep cfg))])"
proof -
  let ?L = "length (files_to_sweep cfg)"
  have "(\<Sum>w<num_threads cfg. sum_list (map f (claimed_by cfg tr w)))
      = (\<Sum>w<num_threads cfg. sum_list (map (\<lambda>c. (f \<circ> unat) (snd c))
            (filter (\<lambda>c. fst c = w \<and> unat (snd c) < ?L) (claims tr))))"
    by (simp add: claimed_by_def o_def)
  also have "\<dots> = sum_list (map (\<lambda>c. (f \<circ> unat) (snd c))
            (filter (\<lambda>c. unat (snd c) < ?L) (claims tr)))"
    using claims_workers [OF assms(1)]
    by (intro sum_by_worker [where P = "\<lambda>x. unat x < ?L"]) blast
  also have "\<dots> = sum_list (map f (map (\<lambda>c. unat (snd c))
            (filter (\<lambda>c. unat (snd c) < ?L) (claims tr))))"
    by (simp add: o_def)
  finally show ?thesis
    by (simp only: in_range_claims [OF assms])
qed

lemma claimed_union:
  assumes "reachable cfg tr s"
    and "length (files_to_sweep cfg) + num_threads cfg < 2 ^ 64"
  shows "(\<Union>w<num_threads cfg. set (claimed_by cfg tr w))
       = {0..<min (length (claims tr)) (length (files_to_sweep cfg))}"
proof -
  let ?L = "length (files_to_sweep cfg)"
  have "(\<Union>w<num_threads cfg. set (claimed_by cfg tr w))
      = set (map (\<lambda>c. unat (snd c)) (filter (\<lambda>c. unat (snd c) < ?L) (claims tr)))"
    using claims_workers [OF assms(1)] by (auto simp: claimed_by_def)
  then show ?thesis
    by (simp only: in_range_claims [OF assms] set_upt)
qed

lemma keys_merged:
  "fst ` set (merged cfg s w t) =
     {k. str_hash cfg k mod num_threads cfg = w
         \<and> (\<exists>p<t. k \<in> fst ` set (local_freq (workers s p)))}"
proof (induction t)
  case 0
  show ?case by (simp add: merged_0)
next
  case (Suc t)
  show ?case
    unfolding merged_Suc keys_apply_updates Suc keys_owned
    by (auto simp: less_Suc_eq)
qed

lemma count_merged:
  assumes "\<And>p. table_inv (local_freq (workers s p))"
  shows "count_of (merged cfg s w t) k =
     (\<Sum>p<t. count_of (owned cfg w (local_freq (workers s p))) k)"
proof (induction t)
  case 0
  show ?case by (simp add: merged_0 count_of_Nil)
next
  case (Suc t)
  have "table_inv (merged cfg s w t)"
    using assms by (rule table_inv_merged)
  moreover have "distinct (map fst (owned cfg w (local_freq (workers s t))))"
    using assms by (intro table_inv_distinct table_inv_owned)
  ultimately show ?case
    by (simp add: merged_Suc count_of_apply_updates Suc)
qed

text \<open>The partition ownership invariant, in every reachable state.\<close>

lemma reduced_keys_owned:
  assumes "reachable cfg tr s" "w < num_threads cfg"
    "k \<in> fst ` set (reduced_freq (workers s w))"
  shows "str_hash cfg k mod num_threads cfg = w"
  using assms(3) unfolding reduced_is_merged [OF assms(1,2)] keys_merged by simp

lemma all_claimed:
  assumes "reachable cfg tr s"
    and "length (files_to_sweep cfg) + num_threads cfg < 2 ^ 64"
    and "w < num_threads cfg" "pc (workers s w) \<noteq> Mapping"
  shows "length (files_to_sweep cfg) \<le> length (claims tr)"
proof -
  from assms(3,4) have "leavers cfg s \<noteq> {}" by (auto simp: leavers_def)
  with cursor_inv [OF assms(1,2)] show ?thesis by simp
qed

lemma global_table_inv: "table_inv (global_table cfg)"
  by (simp add: global_table_def table_inv_files_table)

lemma global_keys:
  "fst ` set (global_table cfg) =
     (\<Union>i<length (files_to_sweep cfg). set (emitted (ngram cfg) (files_to_sweep cfg ! i)))"
proof -
  have "set (files_to_sweep cfg) = (!) (files_to_sweep cfg) ` {..<length (files_to_sweep cfg)}"
    using nth_image [of "length (files_to_sweep cfg)" "files_to_sweep cfg"]
    by (simp add: lessThan_atLeast0)
  then have "(\<Union>f \<in> set (files_to_sweep cfg). set (emitted (ngram cfg) f))
      = (\<Union>i<length (files_to_sweep cfg). set (emitted (ngram cfg) (files_to_sweep cfg ! i)))"
    by simp
  then show ?thesis
    by (simp only: global_table_def keys_files_table)
qed

lemma global_count:
  "count_of (global_table cfg) k =
     of_nat (sum_list (map (occurrences cfg k) [0..<length (files_to_sweep cfg)]))"
proof -
  have "map (\<lambda>f. count_list (emitted (ngram cfg) f) k) (files_to_sweep cfg)
      = map (occurrences cfg k) [0..<length (files_to_sweep cfg)]"
    by (rule nth_equalityI) (simp_all add: occurrences_def)
  then show ?thesis
    by (simp add: global_table_def count_files_table)
qed

text \<open>
  Once a worker has read its last future, its table is its partition of the table of all
  files, whatever the schedule was.
\<close>

lemma reduced_final:
  assumes "reachable cfg tr s"
    and "length (files_to_sweep cfg) + num_threads cfg < 2 ^ 64"
    and "w < num_threads cfg"
    and "pc (workers s w) = Printing \<or> pc (workers s w) = Finished"
  shows "reduced_freq (workers s w) = owned cfg w (global_table cfg)"
proof -
  let ?N = "num_threads cfg" and ?L = "length (files_to_sweep cfg)"
  from assms(4) have prog: "progress ?N (pc (workers s w)) = ?N" by auto
  have red: "reduced_freq (workers s w) = merged cfg s w ?N"
    using reduced_is_merged [OF assms(1,3)] prog by simp
  have left: "pc (workers s p) \<noteq> Mapping" if "p < ?N" for p
    using readers_have_writers [OF assms(1,3), of p] that prog by auto
  from assms(3) left [OF assms(3)] have "?L \<le> length (claims tr)"
    using all_claimed [OF assms(1,2)] by blast
  then have m: "min (length (claims tr)) ?L = ?L" by simp
  note inv = local_table_inv [OF assms(1)]
  show ?thesis
    unfolding red
  proof (rule table_eqI)
    show "table_inv (merged cfg s w ?N)" using inv by (rule table_inv_merged)
    show "table_inv (owned cfg w (global_table cfg))"
      by (intro table_inv_owned global_table_inv)
    have "(\<Union>p<?N. fst ` set (local_freq (workers s p)))
        = (\<Union>i\<in>(\<Union>p<?N. set (claimed_by cfg tr p)).
             set (emitted (ngram cfg) (files_to_sweep cfg ! i)))"
      by (simp add: local_keys [OF assms(1)])
    also have "\<dots> = fst ` set (global_table cfg)"
      unfolding claimed_union [OF assms(1,2)] m global_keys by (simp add: lessThan_atLeast0)
    finally have "(\<Union>p<?N. fst ` set (local_freq (workers s p))) = fst ` set (global_table cfg)" .
    then show "fst ` set (merged cfg s w ?N) = fst ` set (owned cfg w (global_table cfg))"
      unfolding keys_merged keys_owned by blast
  next
    fix k
    have "count_of (merged cfg s w ?N) k
        = (\<Sum>p<?N. count_of (owned cfg w (local_freq (workers s p))) k)"
      using inv by (rule count_merged)
    also have "\<dots> = (if str_hash cfg k mod ?N = w
                      then (\<Sum>p<?N. count_of (local_freq (workers s p)) k) else 0)"
      by (simp add: count_of_owned)
    also have "(\<Sum>p<?N. count_of (local_freq (workers s p)) k)
        = of_nat (\<Sum>p<?N. sum_list (map (occurrences cfg k) (claimed_by cfg tr p)))"
      by (simp add: local_count [OF assms(1)])
    also have "(\<Sum>p<?N. sum_list (map (occurrences cfg k) (claimed_by cfg tr p)))
        = sum_list (map (occurrences cfg k) [0..<?L])"
      using claimed_sum [OF assms(1,2), of "occurrences cfg k"] m by simp
    finally show "count_of (merged cfg s w ?N) k = count_of (owned cfg w (global_table cfg)) k"
      by (simp add: count_of_owned global_count)
  qed
qed

subsection \<open>Top-five selection\<close>

lemma mset_insert_by_comp: "mset (insert_by_comp x ys) = add_mset x (mset ys)"
  by (induction ys) auto

lemma set_insert_by_comp: "set (insert_by_comp x ys) = insert x (set ys)"
  by (induction ys) auto

lemma sorted_insert_by_comp:
  "sorted_wrt (\<lambda>a b. snd b \<le> snd a) ys \<Longrightarrow>
   sorted_wrt (\<lambda>a b. snd b \<le> snd a) (insert_by_comp x ys)"
proof (induction ys)
  case Nil
  then show ?case by simp
next
  case (Cons y ys)
  show ?case
  proof (cases "comp x y")
    case True
    then have "snd y \<le> snd x" by (simp add: comp_def)
    with Cons.prems True show ?thesis by (auto intro: order_trans)
  next
    case False
    then have "snd x \<le> snd y" by (simp add: comp_def)
    with Cons False show ?thesis by (auto simp: set_insert_by_comp)
  qed
qed

lemma fold_insert_by_comp:
  "sorted_wrt (\<lambda>a b. snd b \<le> snd a) acc \<Longrightarrow>
   sorted_wrt (\<lambda>a b. snd b \<le> snd a) (fold insert_by_comp src acc)
   \<and> mset (fold insert_by_comp src acc) = mset src + mset acc"
  by (induction src arbitrary: acc) (simp_all add: sorted_insert_by_comp mset_insert_by_comp)

lemma sort_by_comp_sorted: "sorted_wrt (\<lambda>a b. snd b \<le> snd a) (sort_by_comp src)"
  using fold_insert_by_comp [of "[]" src] by (simp add: sort_by_comp_def)

lemma sort_by_comp_mset: "mset (sort_by_comp src) = mset src"
  using fold_insert_by_comp [of "[]" src] by (simp add: sort_by_comp_def)

lemma sort_by_comp_length: "length (sort_by_comp src) = length src"
  using sort_by_comp_mset [of src] by (metis size_mset)

text \<open>What \<open>std::partial_sort_copy\<close> guarantees, for the model above.\<close>

lemma partial_sort_copy_props:
  fixes src dst :: "entry list"
  defines "n \<equiv> min (length src) (length dst)"
  defines "res \<equiv> partial_sort_copy src dst"
  shows "length res = length dst"
    and "sorted_wrt (\<lambda>a b. snd b \<le> snd a) (take n res)"
    and "mset (take n res) \<subseteq># mset src"
    and "\<forall>x \<in># mset src - mset (take n res). \<forall>y \<in> set (take n res). snd x \<le> snd y"
    and "drop n res = drop n dst"
proof -
  let ?zs = "sort_by_comp src"
  have n: "n \<le> length ?zs" "n \<le> length dst"
    by (simp_all add: n_def sort_by_comp_length)
  have res: "res = take n ?zs @ drop n dst"
    by (simp add: res_def partial_sort_copy_def n_def Let_def)
  have tk: "take n res = take n ?zs" and dr: "drop n res = drop n dst"
    using n by (simp_all add: res)
  show "length res = length dst" using n by (simp add: res)
  show "drop n res = drop n dst" by (rule dr)
  have sorted: "sorted_wrt (\<lambda>a b. snd b \<le> snd a) (take n ?zs @ drop n ?zs)"
    using sort_by_comp_sorted [of src] by simp
  then show "sorted_wrt (\<lambda>a b. snd b \<le> snd a) (take n res)"
    unfolding tk sorted_wrt_append by simp
  have split: "mset src = mset (take n ?zs) + mset (drop n ?zs)"
    using sort_by_comp_mset [of src] by (metis append_take_drop_id mset_append)
  then show "mset (take n res) \<subseteq># mset src"
    by (simp add: tk)
  from split have "mset src - mset (take n res) = mset (drop n ?zs)"
    by (simp add: tk)
  then show "\<forall>x \<in># mset src - mset (take n res). \<forall>y \<in> set (take n res). snd x \<le> snd y"
    using sorted unfolding tk sorted_wrt_append by auto
qed

lemma render_empty_slot: "render_slot ([], 0) = placeholder"
  by (simp add: render_slot_def)

lemma select_top_five_props:
  fixes red :: table
  defines "m \<equiv> min 5 (length red)"
  defines "slots \<equiv> select_top_five red"
  shows "length slots = 5"
    and "sorted_wrt (\<lambda>a b. snd b \<le> snd a) (take m slots)"
    and "mset (take m slots) \<subseteq># mset red"
    and "\<forall>x \<in># mset red - mset (take m slots). \<forall>y \<in> set (take m slots). snd x \<le> snd y"
    and "drop m slots = replicate (5 - m) ([], 0)"
    and "map render_slot (drop m slots) = replicate (5 - m) placeholder"
proof -
  have m: "m = min (length red) (length empty_slots)"
    by (simp add: m_def empty_slots_def min.commute)
  note props = partial_sort_copy_props [of red empty_slots, folded m,
      folded select_top_five_def, folded slots_def]
  show "length slots = 5" using props(1) by (simp add: empty_slots_def)
  show "sorted_wrt (\<lambda>a b. snd b \<le> snd a) (take m slots)" by (rule props(2))
  show "mset (take m slots) \<subseteq># mset red" by (rule props(3))
  show "\<forall>x \<in># mset red - mset (take m slots). \<forall>y \<in> set (take m slots). snd x \<le> snd y"
    by (rule props(4))
  show dr: "drop m slots = replicate (5 - m) ([], 0)"
    using props(5) by (simp add: empty_slots_def)
  show "map render_slot (drop m slots) = replicate (5 - m) placeholder"
    by (simp add: dr render_empty_slot)
qed

text \<open>The report of a worker that has returned is on the console.\<close>

lemma console_has_report:
  assumes "reachable cfg tr s" "w < num_threads cfg" "pc (workers s w) = Finished"
  shows "\<exists>before after. console s = before @ report w (top_five (workers s w)) @ after"
  using assms
proof (induction arbitrary: w rule: reachable.induct)
  case reachable_init
  then show ?case by (simp add: init_fields)
next
  case (reachable_step tr s v ev s')
  note IH = reachable_step.IH [of w]
  from reachable_step.hyps(2) show ?case
  proof (cases rule: step_cases)
    case claim_file
    then show ?thesis using IH reachable_step.prems by (cases "w = v") simp_all
  next
    case claim_done
    then show ?thesis using IH reachable_step.prems by (cases "w = v") simp_all
  next
    case (do_write j)
    then show ?thesis using IH reachable_step.prems
      by (cases "w = v") (simp_all split: if_splits)
  next
    case (read_more j updates)
    then show ?thesis using IH reachable_step.prems by (cases "w = v") simp_all
  next
    case (read_last j updates)
    then show ?thesis using IH reachable_step.prems by (cases "w = v") simp_all
  next
    case do_print
    show ?thesis
    proof (cases "w = v")
      case True
      have "console s' = console s @ report w (top_five (workers s' w)) @ []"
        using do_print True by simp
      then show ?thesis by blast
    next
      case False
      with do_print reachable_step.prems IH obtain before after
        where "console s = before @ report w (top_five (workers s w)) @ after"
        by auto
      then have "console s' = before @ report w (top_five (workers s' w))
          @ (after @ report v (top_five (workers s v)))"
        using do_print False by simp
      then show ?thesis by blast
    qed
  qed
qed

subsection \<open>Order of events\<close>

lemma claim_in_claims: "Claim w idx \<in> set tr \<longleftrightarrow> (w, idx) \<in> set (claims tr)"
proof (induction tr)
  case Nil
  show ?case by (simp add: claims_def)
next
  case (Cons ev tr)
  then show ?case by (cases ev) (auto simp: claims_def)
qed

lemma step_pc_Mapping:
  assumes "step cfg v s = Inr (ev, s')" "pc (workers s w) \<noteq> Mapping"
  shows "pc (workers s' w) \<noteq> Mapping"
  using step_pc [OF assms(1)] assms(2) by (cases "w = v") auto

lemma out_of_range_claim_leaves:
  assumes "reachable cfg tr s" "(w, idx) \<in> set (claims tr)"
    "length (files_to_sweep cfg) \<le> unat idx"
  shows "pc (workers s w) \<noteq> Mapping"
  using assms
proof (induction rule: reachable.induct)
  case reachable_init
  then show ?case by (simp add: claims_def)
next
  case (reachable_step tr s v ev s')
  note st = reachable_step.hyps(2)
  show ?case
  proof (cases "(w, idx) \<in> set (claims tr)")
    case True
    from reachable_step.IH [OF this reachable_step.prems(2)] show ?thesis
      by (rule step_pc_Mapping [OF st])
  next
    case False
    with reachable_step.prems(1) have new: "(w, idx) \<in> set (claim_of ev)"
      by (simp add: claims_snoc)
    from st show ?thesis
    proof (cases rule: step_cases)
      case claim_file
      with new reachable_step.prems(2) show ?thesis by simp
    next
      case claim_done
      with new show ?thesis by simp
    next
      case (do_write j)
      with new show ?thesis by simp
    next
      case (read_more j updates)
      with new show ?thesis by simp
    next
      case (read_last j updates)
      with new show ?thesis by simp
    next
      case do_print
      with new show ?thesis by simp
    qed
  qed
qed

lemma snoc_eq_decomp:
  assumes "tr @ [ev] = before @ x # after"
  obtains (last) "after = []" "before = tr" "x = ev"
    | (earlier) after' where "after = after' @ [ev]" "tr = before @ x # after'"
  using assms by (cases after rule: rev_cases) auto

lemma no_claim_after_out_of_range:
  assumes "reachable cfg tr s" "tr = before @ Claim w idx # after"
    "length (files_to_sweep cfg) \<le> unat idx"
  shows "Claim w idx' \<notin> set after"
  using assms
proof (induction arbitrary: before after rule: reachable.induct)
  case reachable_init
  then show ?case by simp
next
  case (reachable_step tr s v ev s')
  note st = reachable_step.hyps(2)
  from reachable_step.prems(1) show ?case
  proof (cases rule: snoc_eq_decomp)
    case last
    then show ?thesis by simp
  next
    case (earlier after')
    from reachable_step.IH [OF earlier(2) reachable_step.prems(2)]
    have old: "Claim w idx' \<notin> set after'" .
    have "(w, idx) \<in> set (claims tr)"
      by (simp add: earlier(2) claim_in_claims [symmetric])
    from out_of_range_claim_leaves [OF reachable_step.hyps(1) this reachable_step.prems(2)]
    have "pc (workers s w) \<noteq> Mapping" .
    with step_claim(1) [OF st] have "ev \<noteq> Claim w idx'"
      by (auto split: if_splits)
    with old show ?thesis by (simp add: earlier(1))
  qed
qed

lemma step_newly_written:
  assumes "step cfg v s = Inr (ev, s')" "reachable cfg tr s"
    "written (pc (workers s' p)) i" "\<not> written (pc (workers s p)) i" "i < num_threads cfg"
  shows "ev = Write p i"
proof -
  have pv: "p = v"
    using step_pc [OF assms(1)] assms(3,4) by (cases "p = v") auto
  from assms(1) show ?thesis
  proof (cases rule: step_cases)
    case claim_file
    with assms(3,4) pv show ?thesis by simp
  next
    case claim_done
    with assms(3,4) pv show ?thesis by simp
  next
    case (do_write j)
    with assms(3,4,5) pv show ?thesis by (auto split: if_splits)
  next
    case (read_more j updates)
    with assms(3,4) pv show ?thesis by simp
  next
    case (read_last j updates)
    with assms(3,4) pv show ?thesis by simp
  next
    case do_print
    with assms(3,4) pv show ?thesis by simp
  qed
qed

lemma writes_in_trace:
  assumes "reachable cfg tr s" "i < num_threads cfg" "written (pc (workers s p)) i"
  shows "Write p i \<in> set tr"
  using assms
proof (induction rule: reachable.induct)
  case reachable_init
  then show ?case by (simp add: init_fields)
next
  case (reachable_step tr s v ev s')
  show ?case
  proof (cases "written (pc (workers s p)) i")
    case True
    from reachable_step.IH [OF reachable_step.prems(1) this] show ?thesis by simp
  next
    case False
    from step_newly_written [OF reachable_step.hyps(2,1) reachable_step.prems(2) False
        reachable_step.prems(1)]
    show ?thesis by simp
  qed
qed

lemma reads_after_writes:
  assumes "reachable cfg tr s" "tr = before @ Read w t # after"
  shows "w < num_threads cfg \<and> t < num_threads cfg
    \<and> (\<forall>i<num_threads cfg. Write w i \<in> set before)
    \<and> (\<forall>p\<le>t. Write p w \<in> set before)"
  using assms
proof (induction arbitrary: before after rule: reachable.induct)
  case reachable_init
  then show ?case by simp
next
  case (reachable_step tr s v ev s')
  note st = reachable_step.hyps(2)
  note reach = reachable_step.hyps(1)
  from reachable_step.prems show ?case
  proof (cases rule: snoc_eq_decomp)
    case (earlier after')
    from reachable_step.IH [OF earlier(2)] show ?thesis .
  next
    case last
    from step_read_slot [OF st [unfolded last(3) [symmetric]]] obtain updates
      where wv: "w = v" and pc: "pc (workers s v) = Reading t"
        and slot: "shuffle_matrix s v t = Some updates"
      by blast
    note ws = written_slot [OF reach slot]
    have own: "Write w i \<in> set tr" if "i < num_threads cfg" for i
      using writes_in_trace [OF reach that, of w] pc by (simp add: wv)
    have others: "Write p w \<in> set tr" if "p \<le> t" for p
    proof (cases "p = t")
      case True
      with writes_in_trace [OF reach ws(2,3)] show ?thesis by (simp add: wv)
    next
      case False
      with that have "p < progress (num_threads cfg) (pc (workers s w))"
        by (simp add: wv pc)
      from readers_have_writers [OF reach _ this] ws(2)
      have "written (pc (workers s p)) w" by (simp add: wv)
      from writes_in_trace [OF reach _ this] ws(2) show ?thesis by (simp add: wv)
    qed
    from own others ws(1,2) show ?thesis by (simp add: last(2) wv)
  qed
qed

text \<open>No reachable state is stuck before every worker has returned.\<close>

lemma progress_possible:
  assumes "reachable cfg tr s" "w < num_threads cfg" "pc (workers s w) \<noteq> Finished"
  shows "\<exists>v ev s'. step cfg v s = Inr (ev, s')"
proof -
  let ?N = "num_threads cfg"
  have enabled: "\<exists>ev s'. step cfg v s = Inr (ev, s')"
    if "v < ?N" "pc (workers s v) \<noteq> Finished"
      "\<forall>t. pc (workers s v) = Reading t \<longrightarrow> shuffle_matrix s v t \<noteq> None" for v
  proof (cases "pc (workers s v)")
    case Mapping
    with that(1) show ?thesis by (simp add: step_def)
  next
    case (Writing j)
    from slots [OF assms(1), of j v] Writing have "shuffle_matrix s j v = None" by simp
    with that(1) Writing show ?thesis by (simp add: step_def write_step_def Let_def)
  next
    case (Reading t)
    with that(3) obtain updates where "shuffle_matrix s v t = Some updates" by auto
    with that(1) Reading show ?thesis by (simp add: step_def read_step_def Let_def)
  next
    case Printing
    with that(1) show ?thesis by (simp add: step_def)
  next
    case Finished
    with that(2) show ?thesis by simp
  qed
  show ?thesis
  proof (cases "\<exists>v<?N. \<exists>t. pc (workers s v) = Reading t \<and> shuffle_matrix s v t = None")
    case False
    with assms(2) have "\<forall>t. pc (workers s w) = Reading t \<longrightarrow> shuffle_matrix s w t \<noteq> None"
      by auto
    from enabled [OF assms(2,3) this] show ?thesis by blast
  next
    case True
    then obtain v t where v: "v < ?N" and pc: "pc (workers s v) = Reading t"
      and none: "shuffle_matrix s v t = None" by blast
    from pc_bounds [OF assms(1) v, of 0 t] pc have t: "t < ?N" by simp
    from slots [OF assms(1), of v t] none v t have nw: "\<not> written (pc (workers s t)) v"
      by (auto split: if_splits)
    then have "pc (workers s t) \<noteq> Finished"
      and "\<forall>u. pc (workers s t) = Reading u \<longrightarrow> shuffle_matrix s t u \<noteq> None"
      by auto
    from enabled [OF t this] show ?thesis by blast
  qed
qed

subsection \<open>Counts are positive\<close>

lemma count_list_le_length: "count_list xs k \<le> length xs"
  by (induction xs) auto

lemma occurrences_total:
  "sum_list (map (occurrences cfg k) [0..<length (files_to_sweep cfg)]) \<le> total_ngrams cfg"
proof -
  have "map (occurrences cfg k) [0..<length (files_to_sweep cfg)]
      = map (\<lambda>f. count_list (emitted (ngram cfg) f) k) (files_to_sweep cfg)"
    by (rule nth_equalityI) (simp_all add: occurrences_def)
  then have "sum_list (map (occurrences cfg k) [0..<length (files_to_sweep cfg)])
      = count_list (concat (map (emitted (ngram cfg)) (files_to_sweep cfg))) k"
    by (simp add: count_list_concat_map)
  then show ?thesis
    by (simp add: total_ngrams_def count_list_le_length)
qed

lemma sum_list_upt_mono:
  fixes f :: "nat \<Rightarrow> nat"
  assumes "m \<le> n"
  shows "sum_list (map f [0..<m]) \<le> sum_list (map f [0..<n])"
proof -
  from assms have "[0..<n] = [0..<m] @ [m..<n]"
    by (metis le0 upt_add_eq_append le_add_diff_inverse)
  then show ?thesis by simp
qed

lemma claimed_total:
  assumes "reachable cfg tr s"
    and "length (files_to_sweep cfg) + num_threads cfg < 2 ^ 64"
  shows "(\<Sum>p<num_threads cfg. sum_list (map (occurrences cfg k) (claimed_by cfg tr p)))
       \<le> total_ngrams cfg"
proof -
  have "(\<Sum>p<num_threads cfg. sum_list (map (occurrences cfg k) (claimed_by cfg tr p)))
      = sum_list (map (occurrences cfg k)
          [0..<min (length (claims tr)) (length (files_to_sweep cfg))])"
    by (rule claimed_sum [OF assms])
  also have "\<dots> \<le> sum_list (map (occurrences cfg k) [0..<length (files_to_sweep cfg)])"
    by (rule sum_list_upt_mono) simp
  also have "\<dots> \<le> total_ngrams cfg" by (rule occurrences_total)
  finally show ?thesis .
qed

lemma local_occurs:
  assumes "reachable cfg tr s" "k \<in> fst ` set (local_freq (workers s p))"
  shows "1 \<le> sum_list (map (occurrences cfg k) (claimed_by cfg tr p))"
proof -
  from assms(2) obtain i where i: "i \<in> set (claimed_by cfg tr p)"
    and k: "k \<in> set (emitted (ngram cfg) (files_to_sweep cfg ! i))"
    unfolding local_keys [OF assms(1)] by blast
  from k have "occurrences cfg k i \<noteq> 0"
    by (simp add: occurrences_def count_list_0_iff)
  then have "1 \<le> occurrences cfg k i" by simp
  also have "occurrences cfg k i \<le> sum_list (map (occurrences cfg k) (claimed_by cfg tr p))"
    using i by (intro member_le_sum_list) auto
  finally show ?thesis .
qed

lemma word_of_nat_ge_1:
  assumes "1 \<le> a" "a < 2 ^ 64"
  shows "(1::64 word) \<le> of_nat a"
proof -
  have "unat (of_nat a :: 64 word) = a"
    using assms(2) by (simp add: unat_of_nat)
  with assms(1) show ?thesis
    by (simp add: word_le_nat_alt)
qed

lemma progress_le:
  assumes "reachable cfg tr s" "w < num_threads cfg"
  shows "progress (num_threads cfg) (pc (workers s w)) \<le> num_threads cfg"
proof (cases "pc (workers s w)")
  case (Reading t)
  with pc_bounds [OF assms, of 0 t] show ?thesis by simp
qed simp_all

text \<open>No count of a table entry is 0, as long as no counter can wrap.\<close>

lemma table_entries_positive:
  assumes "reachable cfg tr s" "w < num_threads cfg"
    and "length (files_to_sweep cfg) + num_threads cfg < 2 ^ 64"
    and "total_ngrams cfg < 2 ^ 64"
  shows "e \<in> set (local_freq (workers s w)) \<Longrightarrow> 1 \<le> snd e"
    and "e \<in> set (reduced_freq (workers s w)) \<Longrightarrow> 1 \<le> snd e"
proof -
  let ?N = "num_threads cfg"
  let ?A = "\<lambda>p k. sum_list (map (occurrences cfg k) (claimed_by cfg tr p))"
  obtain k c where e: "e = (k, c)" by (cases e)
  have total: "(\<Sum>p<?N. ?A p k) \<le> total_ngrams cfg" for k
    by (rule claimed_total [OF assms(1,3)])
  have part: "(\<Sum>p<t. ?A p k) \<le> total_ngrams cfg" if "t \<le> ?N" for t k
  proof -
    have "(\<Sum>p<t. ?A p k) \<le> (\<Sum>p<?N. ?A p k)"
      using that by (intro sum_mono2) auto
    with total [of k] show ?thesis by linarith
  qed
  {
    assume mem: "e \<in> set (local_freq (workers s w))"
    then have key: "k \<in> fst ` set (local_freq (workers s w))" by (force simp: e)
    have "c = count_of (local_freq (workers s w)) k"
      using count_of_entry [OF local_table_inv [OF assms(1)]] mem by (simp add: e)
    also have "\<dots> = of_nat (?A w k)" by (rule local_count [OF assms(1)])
    finally have c: "c = of_nat (?A w k)" .
    have "?A w k \<le> (\<Sum>p<?N. ?A p k)"
      using assms(2) by (intro member_le_sum) simp_all
    with total [of k] assms(4) have "?A w k < 2 ^ 64" by linarith
    from word_of_nat_ge_1 [OF local_occurs [OF assms(1) key] this]
    show "1 \<le> snd e" by (simp add: e c)
  next
    let ?t = "progress ?N (pc (workers s w))"
    assume mem: "e \<in> set (reduced_freq (workers s w))"
    then have "k \<in> fst ` set (merged cfg s w ?t)"
      unfolding reduced_is_merged [OF assms(1,2)] by (force simp: e)
    then obtain p where own: "str_hash cfg k mod ?N = w" and p: "p < ?t"
      and key: "k \<in> fst ` set (local_freq (workers s p))"
      unfolding keys_merged by blast
    have "c = count_of (reduced_freq (workers s w)) k"
      using count_of_entry [OF reduced_table_inv [OF assms(1,2)]] mem by (simp add: e)
    also have "\<dots> = (\<Sum>p<?t. count_of (owned cfg w (local_freq (workers s p))) k)"
      unfolding reduced_is_merged [OF assms(1,2)]
      using local_table_inv [OF assms(1)] by (rule count_merged)
    also have "\<dots> = of_nat (\<Sum>p<?t. ?A p k)"
      by (simp add: count_of_owned own local_count [OF assms(1)])
    finally have c: "c = of_nat (\<Sum>p<?t. ?A p k)" .
    have "1 \<le> ?A p k" by (rule local_occurs [OF assms(1) key])
    also have "?A p k \<le> (\<Sum>p<?t. ?A p k)"
      using p by (intro member_le_sum) simp_all
    finally have ge: "1 \<le> (\<Sum>p<?t. ?A p k)" .
    from part [OF progress_le [OF assms(1,2)], of k] assms(4)
    have "(\<Sum>p<?t. ?A p k) < 2 ^ 64" by linarith
    from word_of_nat_ge_1 [OF ge this] show "1 \<le> snd e" by (simp add: e c)
  }
qed

subsection \<open>An example run\<close>

lemma run_result: "\<not> isl r \<Longrightarrow> r = Inr (trace_of r, state_of r)"
  by (cases r) (simp_all add: trace_of_def state_of_def)

lemma example_run:
  "compute example_config example_schedule =
     Inr (trace_of (compute example_config example_schedule),
          state_of (compute example_config example_schedule))"
proof -
  have "\<not> isl (compute example_config example_schedule)" by code_simp
  then show ?thesis by (rule run_result)
qed

lemma example_trace:
  "trace_of (compute example_config example_schedule) =
     [Claim 0 0, Claim 1 1, Claim 0 2, Claim 1 3, Write 0 0, Write 0 1, Write 1 0, Write 1 1,
      Read 0 0, Read 0 1, Read 1 0, Read 1 1, Print 0, Print 1]"
  by code_simp

lemma example_finished:
  "all_finished example_config (state_of (compute example_config example_schedule))"
proof -
  have "pc (workers (state_of (compute example_config example_schedule)) 0) = Finished"
    and "pc (workers (state_of (compute example_config example_schedule)) 1) = Finished"
    by code_simp+
  then show ?thesis
    by (auto simp: all_finished_def example_config_def less_2_cases_iff)
qed

lemma example_tables:
  "reduced_freq (workers (state_of (compute example_config example_schedule)) 0) = [(''b a'', 1)]"
  "reduced_freq (workers (state_of (compute example_config example_schedule)) 1) = [(''a b'', 3)]"
  "local_freq (workers (state_of (compute example_config example_schedule)) 0) = [(''a b'', 2), (''b a'', 1)]"
  "local_freq (workers (state_of (compute example_config example_schedule)) 1) = [(''a b'', 1)]"
  "top_five (workers (state_of (compute example_config example_schedule)) 0)
     = [(''b a'', 1), ([], 0), ([], 0), ([], 0), ([], 0)]"
  "top_five (workers (state_of (compute example_config example_schedule)) 1)
     = [(''a b'', 3), ([], 0), ([], 0), ([], 0), ([], 0)]"
  "console (state_of (compute example_config example_schedule)) =
     [''Thread 0:'', ''       b a: 1'', ''       ...'', ''       ...'', ''       ...'', ''       ...'',
      ''Thread 1:'', ''       a b: 3'', ''       ...'', ''       ...'', ''       ...'', ''       ...'']"
  by code_simp+

lemma example_reference: "reference_table 2 [''a b a b'', ''a b''] ''a b'' = 3"
  "reference_table 2 [''a b a b'', ''a b''] ''b a'' = 1"
  by code_simp+

subsection \<open>Sums and ownership\<close>

lemma reference_fold:
  "fold (\<lambda>g tab. tab(g := tab g + 1)) gs tab k = tab k + of_nat (count_list gs k)"
  by (induction gs arbitrary: tab) (auto simp: add.assoc)

lemma reference_table_count:
  "reference_table n files k = of_nat (count_list (concat (map (spec_tokenize n) files)) k)"
  by (simp add: reference_table_def reference_fold)

lemma occurrences_sum:
  "sum_list (map (occurrences cfg k) [0..<length (files_to_sweep cfg)])
     = count_list (concat (map (emitted (ngram cfg)) (files_to_sweep cfg))) k"
proof -
  have "map (occurrences cfg k) [0..<length (files_to_sweep cfg)]
      = map (\<lambda>f. count_list (emitted (ngram cfg) f) k) (files_to_sweep cfg)"
    by (rule nth_equalityI) (simp_all add: occurrences_def)
  then show ?thesis
    by (simp add: count_list_concat_map)
qed

lemma global_table_reference:
  assumes "1 \<le> ngram cfg"
  shows "count_of (global_table cfg) k = reference_table (ngram cfg) (files_to_sweep cfg) k"
proof -
  from assms have "emitted (ngram cfg) = spec_tokenize (ngram cfg)"
    by (auto simp: emitted_def)
  then show ?thesis
    by (simp add: global_count occurrences_sum reference_table_count)
qed

text \<open>
  C1. For every list of files, every configuration with at least one worker, \<open>n \<ge> 1\<close>
  and a file list and thread count that fit a \<open>uint64_t\<close> index (any \<open>std::vector\<close> and
  any \<open>uint32_t\<close> do), every schedule, and every n-gram \<open>k\<close>: when all workers have
  returned, the counts stored for \<open>k\<close> in the workers' reduced tables sum to the count
  the single-threaded reference gives \<open>k\<close>. The sum and the reference count are
  \<open>uint64_t\<close> values.
\<close>

theorem reduced_counts_sum_to_reference:
  assumes "compute cfg sched = Inr (tr, s)" and "all_finished cfg s"
    and "1 \<le> num_threads cfg" and "1 \<le> ngram cfg"
    and "length (files_to_sweep cfg) + num_threads cfg < 2 ^ 64"
  shows "(\<Sum>w<num_threads cfg. count_of (reduced_freq (workers s w)) k)
       = reference_table (ngram cfg) (files_to_sweep cfg) k"
proof -
  let ?N = "num_threads cfg"
  note reach = compute_reachable [OF assms(1)]
  have "(\<Sum>w<?N. count_of (reduced_freq (workers s w)) k)
      = (\<Sum>w<?N. count_of (owned cfg w (global_table cfg)) k)"
  proof (rule sum.cong)
    fix w assume "w \<in> {..<?N}"
    then have w: "w < ?N" by simp
    with assms(2) have "pc (workers s w) = Printing \<or> pc (workers s w) = Finished"
      by (simp add: all_finished_def)
    from reduced_final [OF reach assms(5) w this]
    show "count_of (reduced_freq (workers s w)) k = count_of (owned cfg w (global_table cfg)) k"
      by simp
  qed simp
  also have "\<dots> = (\<Sum>w<?N. if str_hash cfg k mod ?N = w then count_of (global_table cfg) k else 0)"
    by (simp add: count_of_owned)
  also have "\<dots> = count_of (global_table cfg) k"
    using assms(3) by simp
  finally show ?thesis
    by (simp add: global_table_reference [OF assms(4)])
qed

theorem reduced_counts_sum_to_reference_witness:
  "(\<Sum>w<2. count_of
       (reduced_freq (workers (state_of (compute example_config example_schedule)) w)) ''a b'')
     = 3
   \<and> reference_table 2 [''a b a b'', ''a b''] ''a b'' = 3
   \<and> all_finished example_config (state_of (compute example_config example_schedule))"
proof -
  have b: "(1::nat) \<le> num_threads example_config" "(1::nat) \<le> ngram example_config"
    "length (files_to_sweep example_config) + num_threads example_config < 2 ^ 64"
    by (simp_all add: example_config_def)
  from reduced_counts_sum_to_reference [OF example_run example_finished b, of "''a b''"]
  show ?thesis
    using example_finished by (simp add: example_config_def example_reference)
qed

text \<open>
  C2. In every state of every run, an n-gram \<open>k\<close> that has an entry in the reduced table
  of worker \<open>w\<close> (with a count that is 0 or not) has \<open>hash(k) mod num_threads = w\<close>, and
  no other worker's reduced table has an entry for \<open>k\<close>.
\<close>

theorem partition_ownership:
  assumes "compute cfg sched = Inr (tr, s)" and "w < num_threads cfg"
    and "(k, c) \<in> set (reduced_freq (workers s w))"
  shows "str_hash cfg k mod num_threads cfg = w
    \<and> (\<forall>w'<num_threads cfg. w' \<noteq> w \<longrightarrow> k \<notin> fst ` set (reduced_freq (workers s w')))"
proof -
  note reach = compute_reachable [OF assms(1)]
  from assms(3) have "k \<in> fst ` set (reduced_freq (workers s w))" by force
  from reduced_keys_owned [OF reach assms(2) this]
  have own: "str_hash cfg k mod num_threads cfg = w" .
  moreover have "k \<notin> fst ` set (reduced_freq (workers s w'))"
    if "w' < num_threads cfg" "w' \<noteq> w" for w'
    using reduced_keys_owned [OF reach that(1), of k] own that(2) by blast
  ultimately show ?thesis by blast
qed

theorem partition_ownership_witness:
  "(''a b'', 3) \<in> set (reduced_freq (workers (state_of (compute example_config example_schedule)) 1))
   \<and> str_hash example_config ''a b'' mod num_threads example_config = 1
   \<and> ''a b'' \<notin> fst ` set (reduced_freq (workers (state_of (compute example_config example_schedule)) 0))"
proof -
  have mem: "(''a b'', 3) \<in> set (reduced_freq
      (workers (state_of (compute example_config example_schedule)) 1))"
    unfolding example_tables by simp
  have w: "(1::nat) < num_threads example_config" by (simp add: example_config_def)
  from partition_ownership [OF example_run w mem] mem show ?thesis
    by (simp add: example_config_def)
qed

subsection \<open>The work cursor\<close>

text \<open>
  C6. The values that \<open>global_index++\<close> returns, in the order of the claims, are
  0, 1, 2, ...: they increase strictly, start at 0 and no two are equal. Once a worker
  has been returned an index that is not below the number of files, it claims no more.
  The bound on files and threads is what keeps a \<open>uint64_t\<close> index from wrapping.
\<close>

theorem claims_count_up_and_stop:
  assumes "compute cfg sched = Inr (tr, s)"
    and "length (files_to_sweep cfg) + num_threads cfg < 2 ^ 64"
  shows "map unat (claim_values tr) = [0..<length (claim_values tr)]
    \<and> sorted_wrt (<) (claim_values tr) \<and> distinct (claim_values tr)
    \<and> (\<forall>before w idx after idx'.
          tr = before @ Claim w idx # after \<and> length (files_to_sweep cfg) \<le> unat idx
          \<longrightarrow> Claim w idx' \<notin> set after)"
proof -
  note reach = compute_reachable [OF assms(1)]
  from cursor_inv [OF reach assms(2)]
  have vals: "map unat (claim_values tr) = [0..<length (claim_values tr)]"
    by (simp add: claim_values_def)
  have "sorted_wrt (<) (map unat (claim_values tr))"
    unfolding vals by (simp add: sorted_wrt_upt del: upt_Suc)
  then have "sorted_wrt (\<lambda>x y. unat x < unat y) (claim_values tr)"
    by (simp add: sorted_wrt_map)
  then have sorted: "sorted_wrt (<) (claim_values tr)"
    by (rule sorted_wrt_mono_rel [rotated]) (simp add: word_less_nat_alt)
  then have "distinct (claim_values tr)"
    by (simp add: strict_sorted_iff)
  with vals sorted no_claim_after_out_of_range [OF reach] show ?thesis
    by blast
qed

theorem claims_count_up_and_stop_witness:
  "claim_values (trace_of (compute example_config example_schedule)) = [0, 1, 2, 3]
   \<and> distinct (claim_values (trace_of (compute example_config example_schedule)))
   \<and> Claim 0 3 \<notin> set [Claim 1 3, Write 0 0, Write 0 1, Write 1 0, Write 1 1,
        Read 0 0, Read 0 1, Read 1 0, Read 1 1, Print 0, Print 1]"
proof -
  have b: "length (files_to_sweep example_config) + num_threads example_config < 2 ^ 64"
    by (simp add: example_config_def)
  have tr: "trace_of (compute example_config example_schedule)
      = [Claim 0 0, Claim 1 1] @ Claim 0 2 # [Claim 1 3, Write 0 0, Write 0 1, Write 1 0,
          Write 1 1, Read 0 0, Read 0 1, Read 1 0, Read 1 1, Print 0, Print 1]"
    by (simp add: example_trace)
  have out: "length (files_to_sweep example_config) \<le> unat (2 :: 64 word)"
    by (simp add: example_config_def)
  from claims_count_up_and_stop [OF example_run b] tr out
  have "distinct (claim_values (trace_of (compute example_config example_schedule)))"
    and "Claim 0 3 \<notin> set [Claim 1 3, Write 0 0, Write 0 1, Write 1 0, Write 1 1,
        Read 0 0, Read 0 1, Read 1 0, Read 1 1, Print 0, Print 1]"
    by blast+
  moreover have "claim_values (trace_of (compute example_config example_schedule)) = [0, 1, 2, 3]"
    by (simp add: example_trace claim_values_def claims_def)
  ultimately show ?thesis by blast
qed

subsection \<open>Writes before reads\<close>

lemma left_map_claimed:
  assumes "reachable cfg tr s" "pc (workers s p) \<noteq> Mapping"
  shows "\<exists>idx. Claim p idx \<in> set tr \<and> length (files_to_sweep cfg) \<le> unat idx"
  using assms
proof (induction rule: reachable.induct)
  case reachable_init
  then show ?case by (simp add: init_fields)
next
  case (reachable_step tr s v ev s')
  show ?case
  proof (cases "pc (workers s p) = Mapping")
    case False
    from reachable_step.IH [OF this] show ?thesis by auto
  next
    case True
    from reachable_step.hyps(2) show ?thesis
    proof (cases rule: step_cases)
      case claim_file
      with True reachable_step.prems show ?thesis by (cases "p = v") simp_all
    next
      case claim_done
      show ?thesis
      proof (cases "p = v")
        case True
        with claim_done have "Claim p (global_index s) \<in> set (tr @ [ev])"
          and "length (files_to_sweep cfg) \<le> unat (global_index s)"
          by simp_all
        then show ?thesis by blast
      next
        case False
        with claim_done \<open>pc (workers s p) = Mapping\<close> reachable_step.prems
        show ?thesis by simp
      qed
    next
      case (do_write j)
      with True reachable_step.prems show ?thesis by (cases "p = v") simp_all
    next
      case (read_more j updates)
      with True reachable_step.prems show ?thesis by (cases "p = v") simp_all
    next
      case (read_last j updates)
      with True reachable_step.prems show ?thesis by (cases "p = v") simp_all
    next
      case do_print
      with True reachable_step.prems show ?thesis by (cases "p = v") simp_all
    qed
  qed
qed

lemma reads_after_maps:
  assumes "reachable cfg tr s" "tr = before @ Read w t # after" "p \<le> t"
  shows "\<exists>idx. Claim p idx \<in> set before \<and> length (files_to_sweep cfg) \<le> unat idx"
  using assms
proof (induction arbitrary: before after rule: reachable.induct)
  case reachable_init
  then show ?case by simp
next
  case (reachable_step tr s v ev s')
  note st = reachable_step.hyps(2)
  note reach = reachable_step.hyps(1)
  from reachable_step.prems(1) show ?case
  proof (cases rule: snoc_eq_decomp)
    case (earlier after')
    from reachable_step.IH [OF earlier(2) reachable_step.prems(2)] show ?thesis .
  next
    case last
    from step_read_slot [OF st [unfolded last(3) [symmetric]]] obtain updates
      where wv: "w = v" and pc: "pc (workers s v) = Reading t"
        and slot: "shuffle_matrix s v t = Some updates"
      by blast
    note ws = written_slot [OF reach slot]
    have "written (pc (workers s p)) w"
    proof (cases "p = t")
      case True
      with ws(3) show ?thesis by (simp add: wv)
    next
      case False
      with reachable_step.prems(2) have "p < progress (num_threads cfg) (pc (workers s w))"
        by (simp add: wv pc)
      from readers_have_writers [OF reach _ this] ws(2) show ?thesis by (simp add: wv)
    qed
    then have "pc (workers s p) \<noteq> Mapping" by (rule written_not_Mapping)
    from left_map_claimed [OF reach this] show ?thesis by (simp add: last(2))
  qed
qed

text \<open>
  C7 as stated: no worker would begin its reduce phase before all \<open>num_threads\<close> squared
  promises are set. With two workers, worker 0 reads both its futures and prints while
  worker 1 has set only the promise for worker 0: the promise \<open>shuffle_matrix.at(1).at(1)\<close>
  is not set and \<open>Write 1 1\<close> has not happened.
\<close>

theorem worker_reduces_before_all_writes:
  "\<not> isl (compute example_config early_schedule)
   \<and> trace_of (compute example_config early_schedule)
       = [Claim 0 0, Claim 0 1, Claim 0 2, Claim 1 3, Write 0 0, Write 0 1, Write 1 0,
          Read 0 0, Read 0 1, Print 0]
   \<and> Write 1 1 \<notin> set (trace_of (compute example_config early_schedule))
   \<and> pc (workers (state_of (compute example_config early_schedule)) 0) = Finished
   \<and> reduced_freq (workers (state_of (compute example_config early_schedule)) 0) = [(''b a'', 1)]
   \<and> shuffle_matrix (state_of (compute example_config early_schedule)) 1 1 = None"
  by code_simp

text \<open>
  C7 amended. When worker \<open>w\<close> reads the future of column \<open>t\<close>, it has set all its
  \<open>num_threads\<close> promises, its own among them, and every worker \<open>p \<le> t\<close> has left the
  map loop (it claimed an index past the last file) and has set the promise that \<open>w\<close>
  reads from it. So a worker finishes its reduce loop only after every worker has
  finished its map loop and written the slot addressed to that worker; promises
  addressed to other workers may still be unset.
\<close>

theorem writes_before_reads:
  assumes "compute cfg sched = Inr (tr, s)" and "tr = before @ Read w t # after"
  shows "(\<forall>i<num_threads cfg. Write w i \<in> set before)
    \<and> (\<forall>p\<le>t. Write p w \<in> set before
          \<and> (\<exists>idx. Claim p idx \<in> set before \<and> length (files_to_sweep cfg) \<le> unat idx))"
proof -
  note reach = compute_reachable [OF assms(1)]
  from reads_after_writes [OF reach assms(2)] reads_after_maps [OF reach assms(2)]
  show ?thesis by blast
qed

theorem writes_before_reads_witness:
  "Write 0 0 \<in> set [Claim 0 0, Claim 1 1, Claim 0 2, Claim 1 3, Write 0 0, Write 0 1,
      Write 1 0, Write 1 1, Read 0 0]
   \<and> Write 1 0 \<in> set [Claim 0 0, Claim 1 1, Claim 0 2, Claim 1 3, Write 0 0, Write 0 1,
      Write 1 0, Write 1 1, Read 0 0]
   \<and> trace_of (compute example_config example_schedule)
      = [Claim 0 0, Claim 1 1, Claim 0 2, Claim 1 3, Write 0 0, Write 0 1,
      Write 1 0, Write 1 1, Read 0 0] @ Read 0 1 # [Read 1 0, Read 1 1, Print 0, Print 1]"
proof -
  have tr: "trace_of (compute example_config example_schedule)
      = [Claim 0 0, Claim 1 1, Claim 0 2, Claim 1 3, Write 0 0, Write 0 1,
      Write 1 0, Write 1 1, Read 0 0] @ Read 0 1 # [Read 1 0, Read 1 1, Print 0, Print 1]"
    by (simp add: example_trace)
  from writes_before_reads [OF example_run tr] tr show ?thesis
    by (simp add: example_config_def)
qed

subsection \<open>The report and the placeholders\<close>

text \<open>
  C8. The report of a worker that has selected its top five is a list of exactly 5
  slots. With \<open>m\<close> the smaller of 5 and the number of entries (distinct n-grams) of its
  reduced table, the first \<open>m\<close> slots are entries of the table in descending order of
  count, no entry left out has a larger count than one of them, and each of the other
  \<open>5 - m\<close> slots still has its initial value, the empty string with the count 0, and is
  printed as the placeholder line. When the worker has returned, its report is on the
  console.
\<close>

theorem top_five_slots:
  fixes s :: state and w :: nat
  defines "red \<equiv> reduced_freq (workers s w)"
    and "slots \<equiv> top_five (workers s w)"
  defines "m \<equiv> min 5 (length red)"
  assumes "compute cfg sched = Inr (tr, s)" and "w < num_threads cfg"
    and "pc (workers s w) = Printing \<or> pc (workers s w) = Finished"
  shows "length slots = 5 \<and> card (fst ` set red) = length red
    \<and> sorted_wrt (\<lambda>a b. snd b \<le> snd a) (take m slots)
    \<and> mset (take m slots) \<subseteq># mset red
    \<and> (\<forall>x \<in># mset red - mset (take m slots). \<forall>y \<in> set (take m slots). snd x \<le> snd y)
    \<and> drop m slots = replicate (5 - m) ([], 0)
    \<and> map render_slot (drop m slots) = replicate (5 - m) placeholder
    \<and> (pc (workers s w) = Finished \<longrightarrow>
          (\<exists>before after. console s = before @ report w slots @ after))"
proof -
  note reach = compute_reachable [OF assms(4)]
  have slots: "slots = select_top_five red"
    unfolding slots_def red_def by (rule top_five_selected [OF reach assms(5,6)])
  have "distinct (map fst red)"
    unfolding red_def by (intro table_inv_distinct reduced_table_inv [OF reach assms(5)])
  then have "card (set (map fst red)) = length (map fst red)"
    by (rule distinct_card)
  then have card: "card (fst ` set red) = length red" by simp
  have report: "pc (workers s w) = Finished \<longrightarrow>
      (\<exists>before after. console s = before @ report w slots @ after)"
    unfolding slots_def using console_has_report [OF reach assms(5)] by blast
  from select_top_five_props [of red, folded slots m_def] card report
  show ?thesis by blast
qed

theorem top_five_slots_witness:
  "length (top_five (workers (state_of (compute example_config example_schedule)) 1)) = 5
   \<and> top_five (workers (state_of (compute example_config example_schedule)) 1)
       = [(''a b'', 3), ([], 0), ([], 0), ([], 0), ([], 0)]
   \<and> map render_slot (drop 1 (top_five (workers (state_of (compute example_config example_schedule)) 1)))
       = replicate 4 placeholder"
proof -
  have w: "(1::nat) < num_threads example_config" by (simp add: example_config_def)
  have fin: "pc (workers (state_of (compute example_config example_schedule)) 1) = Printing
      \<or> pc (workers (state_of (compute example_config example_schedule)) 1) = Finished"
    using example_finished by (simp add: all_finished_def example_config_def)
  from top_five_slots [OF example_run w fin] show ?thesis
    unfolding example_tables by (simp add: render_empty_slot)
qed

text \<open>
  C9. As long as no \<open>uint64_t\<close> can wrap (the file list and the thread count fit the
  index, and all files together hold fewer than \<open>2^64\<close> n-grams), every entry of every
  local and every reduced table has a count of at least 1 in every state of every run.
  So in the top five of a worker a slot has the count 0 exactly when it is one of the
  slots the selection left at its initial value; the slots before them are entries of
  the reduced table.
\<close>

theorem counts_at_least_one:
  assumes "compute cfg sched = Inr (tr, s)" and "w < num_threads cfg"
    and "length (files_to_sweep cfg) + num_threads cfg < 2 ^ 64"
    and "total_ngrams cfg < 2 ^ 64"
  shows "(\<forall>e \<in> set (local_freq (workers s w)). 1 \<le> snd e)
    \<and> (\<forall>e \<in> set (reduced_freq (workers s w)). 1 \<le> snd e)
    \<and> (pc (workers s w) = Printing \<or> pc (workers s w) = Finished \<longrightarrow>
        (\<forall>i<5. (snd (top_five (workers s w) ! i) = 0)
                  = (min 5 (length (reduced_freq (workers s w))) \<le> i)
               \<and> (i < min 5 (length (reduced_freq (workers s w))) \<longrightarrow>
                    top_five (workers s w) ! i \<in> set (reduced_freq (workers s w)))
               \<and> (min 5 (length (reduced_freq (workers s w))) \<le> i \<longrightarrow>
                    top_five (workers s w) ! i = ([], 0))))"
proof -
  note reach = compute_reachable [OF assms(1)]
  let ?red = "reduced_freq (workers s w)" and ?top = "top_five (workers s w)"
  let ?m = "min 5 (length ?red)"
  note pos = table_entries_positive [OF reach assms(2,3,4)]
  have slots: "(snd (?top ! i) = 0) = (?m \<le> i) \<and> (i < ?m \<longrightarrow> ?top ! i \<in> set ?red)
      \<and> (?m \<le> i \<longrightarrow> ?top ! i = ([], 0))"
    if sel: "pc (workers s w) = Printing \<or> pc (workers s w) = Finished" and i: "i < 5" for i
  proof -
    have top: "?top = select_top_five ?red"
      by (rule top_five_selected [OF reach assms(2) sel])
    note props = select_top_five_props [of ?red, folded top]
    show ?thesis
    proof (cases "i < ?m")
      case True
      then have "?top ! i = take ?m ?top ! i" by simp
      also have "\<dots> \<in> set (take ?m ?top)"
        using True props(1) by (intro nth_mem) simp
      finally have "?top ! i \<in># mset (take ?m ?top)" by simp
      with props(3) have mem: "?top ! i \<in> set ?red"
        by (metis mset_subset_eqD set_mset_mset)
      from pos(2) [OF this] have nz: "snd (?top ! i) \<noteq> 0" by auto
      from True have "\<not> ?m \<le> i" by linarith
      with mem nz True show ?thesis by blast
    next
      case False
      then have le: "?m \<le> i" by linarith
      then have "?top ! i = drop ?m ?top ! (i - ?m)"
        using props(1) i by simp
      also have "\<dots> = ([], 0)"
        unfolding props(5) using le i by simp
      finally have eq: "?top ! i = ([], 0)" .
      then have "snd (?top ! i) = 0" by simp
      with eq le False show ?thesis by blast
    qed
  qed
  from pos slots show ?thesis by blast
qed

theorem counts_at_least_one_witness:
  "(1 :: 64 word) \<le> 3 \<and> total_ngrams example_config = 4
   \<and> reduced_freq (workers (state_of (compute example_config example_schedule)) 1)
       = [(''a b'', 3)]
   \<and> snd (top_five (workers (state_of (compute example_config example_schedule)) 1) ! 0) \<noteq> 0"
proof -
  have w: "(1::nat) < num_threads example_config" by (simp add: example_config_def)
  have total: "total_ngrams example_config = 4" by code_simp
  have b: "length (files_to_sweep example_config) + num_threads example_config < 2 ^ 64"
    "total_ngrams example_config < 2 ^ 64"
    by (simp_all add: total) (simp add: example_config_def)
  have fin: "pc (workers (state_of (compute example_config example_schedule)) 1) = Printing
      \<or> pc (workers (state_of (compute example_config example_schedule)) 1) = Finished"
    using example_finished by (simp add: all_finished_def example_config_def)
  have "(0::nat) < 5" by simp
  with counts_at_least_one [OF example_run w b] fin
  have "\<forall>e \<in> set (reduced_freq (workers (state_of (compute example_config example_schedule)) 1)).
      1 \<le> snd e"
    and "(snd (top_five (workers (state_of (compute example_config example_schedule)) 1) ! 0) = 0)
      = (min 5 (length (reduced_freq
            (workers (state_of (compute example_config example_schedule)) 1))) \<le> 0)"
    by blast+
  then show ?thesis
    unfolding example_tables by (simp add: total)
qed

subsection \<open>The two-file scenario\<close>

lemma two_files_table:
  "fold (process_file 2) [''a b a b'', ''a b''] [] = [(''a b'', 3), (''b a'', 1)]"
  by code_simp

lemma two_files_selections:
  "select_top_five [(''a b'', 3), (''b a'', 1)]
     = [(''a b'', 3), (''b a'', 1), ([], 0), ([], 0), ([], 0)]"
  "select_top_five [(''a b'', 3)] = [(''a b'', 3), ([], 0), ([], 0), ([], 0), ([], 0)]"
  "select_top_five [(''b a'', 1)] = [(''b a'', 1), ([], 0), ([], 0), ([], 0), ([], 0)]"
  "select_top_five [] = [([], 0), ([], 0), ([], 0), ([], 0), ([], 0)]"
  by code_simp+

text \<open>
  C4 as stated: the two files \<open>a b a b\<close> and \<open>a b\<close> with \<open>n = 2\<close> would have the global
  counts \<open>a b: 3\<close> and nothing else, and the worker that does not report \<open>a b\<close> would
  report placeholders only. The first file also holds the n-gram \<open>b a\<close>, which the
  reference counts once; in the example run the worker that does not own \<open>a b\<close> owns
  \<open>b a\<close> and reports it.
\<close>

theorem two_files_hold_a_second_ngram:
  "reference_table 2 [''a b a b'', ''a b''] ''b a'' = 1
   \<and> files_to_sweep example_config = [''a b a b'', ''a b'']
   \<and> num_threads example_config = 2 \<and> ngram example_config = 2
   \<and> all_finished example_config (state_of (compute example_config example_schedule))
   \<and> top_five (workers (state_of (compute example_config example_schedule)) 1)
       = [(''a b'', 3), ([], 0), ([], 0), ([], 0), ([], 0)]
   \<and> top_five (workers (state_of (compute example_config example_schedule)) 0)
       = [(''b a'', 1), ([], 0), ([], 0), ([], 0), ([], 0)]
   \<and> render_slot (''b a'', 1) = ''       b a: 1''"
proof -
  have "render_slot (''b a'', 1) = ''       b a: 1''" by code_simp
  moreover have "files_to_sweep example_config = [''a b a b'', ''a b'']"
    "num_threads example_config = 2" "ngram example_config = 2"
    by (simp_all add: example_config_def)
  ultimately show ?thesis
    using example_finished example_reference(2) example_tables(5,6) by blast
qed

text \<open>
  C4 amended. For the two files \<open>a b a b\<close> and \<open>a b\<close>, \<open>n = 2\<close> and two workers, whatever
  the hash function and the schedule: the global counts are \<open>a b: 3\<close> and \<open>b a: 1\<close>.
  Exactly one worker reports \<open>a b\<close> with the count 3, the worker \<open>hash(a b) mod 2\<close>, and
  \<open>b a\<close> with the count 1 is reported by the worker \<open>hash(b a) mod 2\<close>. When these are
  two workers, each reports its n-gram and four placeholders; when they are one worker,
  it reports both n-grams and three placeholders, and the other worker reports five
  placeholders.
\<close>

theorem two_files_scenario:
  assumes "compute cfg sched = Inr (tr, s)" and "all_finished cfg s"
    and "files_to_sweep cfg = [''a b a b'', ''a b'']"
    and "num_threads cfg = 2" and "ngram cfg = 2"
  shows "global_table cfg = [(''a b'', 3), (''b a'', 1)]
    \<and> (\<forall>k. reference_table 2 [''a b a b'', ''a b''] k = count_of [(''a b'', 3), (''b a'', 1)] k)
    \<and> (str_hash cfg ''a b'' mod 2 \<noteq> str_hash cfg ''b a'' mod 2 \<longrightarrow>
          top_five (workers s (str_hash cfg ''a b'' mod 2))
            = [(''a b'', 3), ([], 0), ([], 0), ([], 0), ([], 0)]
        \<and> top_five (workers s (str_hash cfg ''b a'' mod 2))
            = [(''b a'', 1), ([], 0), ([], 0), ([], 0), ([], 0)])
    \<and> (str_hash cfg ''a b'' mod 2 = str_hash cfg ''b a'' mod 2 \<longrightarrow>
          top_five (workers s (str_hash cfg ''a b'' mod 2))
            = [(''a b'', 3), (''b a'', 1), ([], 0), ([], 0), ([], 0)]
        \<and> top_five (workers s (1 - str_hash cfg ''a b'' mod 2))
            = [([], 0), ([], 0), ([], 0), ([], 0), ([], 0)])"
proof -
  note reach = compute_reachable [OF assms(1)]
  let ?a = "str_hash cfg ''a b'' mod 2" and ?b = "str_hash cfg ''b a'' mod 2"
  have bound: "length (files_to_sweep cfg) + num_threads cfg < 2 ^ 64"
    by (simp add: assms(3,4))
  have global: "global_table cfg = [(''a b'', 3), (''b a'', 1)]"
    unfolding global_table_def assms(3,5) by (rule two_files_table)
  have ref: "reference_table 2 [''a b a b'', ''a b''] k = count_of [(''a b'', 3), (''b a'', 1)] k"
    for k
    using global_table_reference [of cfg k] by (simp add: assms(3,5) global)
  have top: "top_five (workers s w) =
      select_top_five (filter (\<lambda>e. str_hash cfg (fst e) mod 2 = w) [(''a b'', 3), (''b a'', 1)])"
    if "w < 2" for w
  proof -
    from that have w: "w < num_threads cfg" by (simp add: assms(4))
    with assms(2) have fin: "pc (workers s w) = Printing \<or> pc (workers s w) = Finished"
      by (simp add: all_finished_def)
    from reduced_final [OF reach bound w fin] top_five_selected [OF reach w fin]
    show ?thesis by (simp add: owned_def global assms(4))
  qed
  have a: "?a < 2" and b: "?b < 2" by simp_all
  have other: "1 - ?a < 2" "1 - ?a \<noteq> ?a" by presburger+
  have differ: "top_five (workers s ?a) = [(''a b'', 3), ([], 0), ([], 0), ([], 0), ([], 0)]
      \<and> top_five (workers s ?b) = [(''b a'', 1), ([], 0), ([], 0), ([], 0), ([], 0)]"
    if "?a \<noteq> ?b"
    using that top [OF a] top [OF b] by (simp add: two_files_selections)
  have same: "top_five (workers s ?a) = [(''a b'', 3), (''b a'', 1), ([], 0), ([], 0), ([], 0)]
      \<and> top_five (workers s (1 - ?a)) = [([], 0), ([], 0), ([], 0), ([], 0), ([], 0)]"
    if "?a = ?b"
  proof -
    from that other(2) have "?b \<noteq> 1 - ?a" "?a \<noteq> 1 - ?a" by simp_all
    with that top [OF a] top [OF other(1)] show ?thesis
      by (simp add: two_files_selections)
  qed
  from global ref differ same show ?thesis by blast
qed

theorem two_files_scenario_witness:
  "global_table example_config = [(''a b'', 3), (''b a'', 1)]
   \<and> str_hash example_config ''a b'' mod 2 = 1 \<and> str_hash example_config ''b a'' mod 2 = 0
   \<and> top_five (workers (state_of (compute example_config example_schedule)) 1)
       = [(''a b'', 3), ([], 0), ([], 0), ([], 0), ([], 0)]
   \<and> top_five (workers (state_of (compute example_config example_schedule)) 0)
       = [(''b a'', 1), ([], 0), ([], 0), ([], 0), ([], 0)]"
proof -
  have cfg: "files_to_sweep example_config = [''a b a b'', ''a b'']"
    "num_threads example_config = 2" "ngram example_config = 2"
    by (simp_all add: example_config_def)
  have h: "str_hash example_config ''a b'' mod 2 = 1" "str_hash example_config ''b a'' mod 2 = 0"
    by (simp_all add: example_config_def example_hash_def)
  from two_files_scenario [OF example_run example_finished cfg] h show ?thesis
    by simp
qed

subsection \<open>Termination\<close>

lemma sum_update_one:
  fixes g :: "nat \<Rightarrow> nat"
  assumes "v < n" "\<And>w. w \<noteq> v \<Longrightarrow> g' w = g w"
  shows "(\<Sum>w<n. g' w) + g v = (\<Sum>w<n. g w) + g' v"
proof -
  have split: "(\<Sum>w<n. h w) = h v + (\<Sum>w\<in>{..<n} - {v}. h w)" for h :: "nat \<Rightarrow> nat"
    using assms(1) by (intro sum.remove) simp_all
  have "(\<Sum>w\<in>{..<n} - {v}. g' w) = (\<Sum>w\<in>{..<n} - {v}. g w)"
    using assms(2) by (intro sum.cong) simp_all
  with split [of g'] split [of g] show ?thesis by simp
qed

lemma step_remaining:
  assumes "step cfg v s = Inr (ev, s')" "reachable cfg tr s"
  shows "remaining (num_threads cfg) (pc (workers s' w)) =
     (if w = v \<and> \<not> (pc (workers s v) = Mapping
                     \<and> unat (global_index s) < length (files_to_sweep cfg))
      then remaining (num_threads cfg) (pc (workers s v)) - 1
      else remaining (num_threads cfg) (pc (workers s w)))
    \<and> 0 < remaining (num_threads cfg) (pc (workers s v))"
  using assms(1)
proof (cases rule: step_cases)
  case claim_file
  then show ?thesis by (cases "w = v") simp_all
next
  case claim_done
  then show ?thesis by (cases "w = v") simp_all
next
  case (do_write j)
  from pc_bounds [OF assms(2) do_write(1), of j 0] do_write
  have "j < num_threads cfg" by simp
  with do_write show ?thesis by (cases "w = v") auto
next
  case (read_more j updates)
  then show ?thesis by (cases "w = v") auto
next
  case (read_last j updates)
  from pc_bounds [OF assms(2) read_last(1), of 0 j] read_last
  have "j + 1 = num_threads cfg" by simp
  with read_last show ?thesis by (cases "w = v") auto
next
  case do_print
  then show ?thesis by (cases "w = v") simp_all
qed

text \<open>Every step uses up one of the steps that are left.\<close>

lemma step_uses_one:
  assumes "reachable cfg tr s"
    and "length (files_to_sweep cfg) + num_threads cfg < 2 ^ 64"
    and "step cfg v s = Inr (ev, s')"
  shows "Suc (steps_left cfg s') = steps_left cfg s"
proof -
  let ?N = "num_threads cfg" and ?L = "length (files_to_sweep cfg)"
  let ?r = "\<lambda>s w. remaining ?N (pc (workers s w))"
  note rem = step_remaining [OF assms(3,1)]
  have v: "v < ?N" by (rule step_claim(3) [OF assms(3)])
  show ?thesis
  proof (cases "pc (workers s v) = Mapping \<and> unat (global_index s) < ?L")
    case True
    then have "Suc (unat (global_index s)) < 2 ^ 64" using assms(2) by linarith
    then have "unat (global_index s') = Suc (unat (global_index s))"
      using step_claim(2) [OF assms(3)] True by (simp add: unat_succ)
    moreover have "(\<Sum>w<?N. ?r s' w) = (\<Sum>w<?N. ?r s w)"
      using rem True by (intro sum.cong) auto
    ultimately show ?thesis using True unfolding steps_left_def by linarith
  next
    case False
    have cursor: "?L - unat (global_index s') = ?L - unat (global_index s)"
    proof (cases "pc (workers s v) = Mapping")
      case False
      with step_claim(2) [OF assms(3)] show ?thesis by simp
    next
      case True
      with False have past: "?L \<le> unat (global_index s)" by simp
      from cursor_inv [OF assms(1,2)] have c: "unat (global_index s) = length (claims tr)"
        and le: "length (claims tr) \<le> ?L + card (leavers cfg s)" by simp_all
      have "v \<notin> leavers cfg s" using True by (simp add: leavers_def)
      moreover have "insert v (leavers cfg s) \<subseteq> {..<?N}"
        using v by (auto simp: leavers_def)
      then have "card (insert v (leavers cfg s)) \<le> card {..<?N}"
        by (intro card_mono) simp_all
      ultimately have "Suc (card (leavers cfg s)) \<le> ?N"
        by (simp add: finite_leavers)
      with le c assms(2) have "Suc (unat (global_index s)) < 2 ^ 64" by linarith
      then have "unat (global_index s') = Suc (unat (global_index s))"
        using step_claim(2) [OF assms(3)] True by (simp add: unat_succ)
      with past show ?thesis by simp
    qed
    have "(\<Sum>w<?N. ?r s' w) + ?r s v = (\<Sum>w<?N. ?r s w) + ?r s' v"
      using v rem by (intro sum_update_one) auto
    moreover have "Suc (?r s' v) = ?r s v"
      using rem [of v] False by auto
    ultimately have "Suc (\<Sum>w<?N. ?r s' w) = (\<Sum>w<?N. ?r s w)"
      by linarith
    with cursor show ?thesis by (simp add: steps_left_def)
  qed
qed

text \<open>
  From every reachable state some schedule takes every worker to its return: the run
  cannot block for ever and cannot go on for ever.
\<close>

lemma can_finish:
  assumes "reachable cfg tr s"
    and "length (files_to_sweep cfg) + num_threads cfg < 2 ^ 64"
  shows "\<exists>sched tr' s'. run cfg sched s = Inr (tr', s') \<and> all_finished cfg s'
    \<and> length sched \<le> steps_left cfg s"
  using assms(1)
proof (induction "steps_left cfg s" arbitrary: tr s rule: less_induct)
  case less
  show ?case
  proof (cases "all_finished cfg s")
    case True
    moreover have "run cfg [] s = Inr ([], s)" by simp
    ultimately show ?thesis by (metis list.size(3) le0)
  next
    case False
    then obtain w where w: "w < num_threads cfg" "pc (workers s w) \<noteq> Finished"
      by (auto simp: all_finished_def)
    from progress_possible [OF less.prems w] obtain v ev s1
      where st: "step cfg v s = Inr (ev, s1)" by blast
    have reach1: "reachable cfg (tr @ [ev]) s1"
      using less.prems st by (rule reachable_step)
    from step_uses_one [OF less.prems assms(2) st]
    have n: "Suc (steps_left cfg s1) = steps_left cfg s" .
    then have "steps_left cfg s1 < steps_left cfg s" by simp
    from less.hyps [OF this reach1] obtain sched tr' s'
      where "run cfg sched s1 = Inr (tr', s')" "all_finished cfg s'"
        "length sched \<le> steps_left cfg s1"
      by blast
    with st n have "run cfg (v # sched) s = Inr (ev # tr', s')"
      "length (v # sched) \<le> steps_left cfg s"
      by simp_all
    with \<open>all_finished cfg s'\<close> show ?thesis by blast
  qed
qed

text \<open>A run takes at most as many steps as the initial state has left.\<close>

lemma run_length:
  assumes "reachable cfg tr s"
    and "length (files_to_sweep cfg) + num_threads cfg < 2 ^ 64"
  shows "length tr + steps_left cfg s = steps_left cfg init_state"
  using assms
proof (induction rule: reachable.induct)
  case reachable_init
  show ?case by simp
next
  case (reachable_step tr s w ev s')
  from step_uses_one [OF reachable_step.hyps(1) reachable_step.prems reachable_step.hyps(2)]
    reachable_step.IH [OF reachable_step.prems]
  show ?case by simp
qed

text \<open>
  \<open>compute\<close> returns: for every configuration some schedule runs all workers to their
  return, every run is a prefix of such a run, and no run has more than
  \<open>files + num_threads * (2 * num_threads + 2)\<close> steps.
\<close>

lemma compute_returns:
  assumes "length (files_to_sweep cfg) + num_threads cfg < 2 ^ 64"
  shows "\<exists>sched tr s. compute cfg sched = Inr (tr, s) \<and> all_finished cfg s"
  using can_finish [OF reachable_init assms] by (auto simp: compute_def)

lemma steps_left_init:
  "steps_left cfg init_state =
     length (files_to_sweep cfg) + num_threads cfg * (2 * num_threads cfg + 2)"
  by (simp add: steps_left_def init_fields)

end
